theory Spec2Isabelle
  imports Main
begin

section \<open>Promises, tasks and handles\<close>

text \<open>
  The asynchronous utilities of \<^verbatim>\<open>src/config.js\<close> (classes \<^verbatim>\<open>PromisePool\<close>,
  \<^verbatim>\<open>AsyncQueue\<close>, \<^verbatim>\<open>RetryPolicy\<close>, \<^verbatim>\<open>Timeout\<close>, \<^verbatim>\<open>CachePromise\<close> and
  \<^verbatim>\<open>AsyncIterator\<close>) run on the single-threaded JavaScript event loop. Each
  synchronous stretch of code is one atomic step of the model; what the event loop
  delivers later (a task's promise settling, a timer firing, a call by the user) is an
  event.

  A promise settles once, fulfilled with a value or rejected with an error.
\<close>

datatype ('e, 'a) outcome = Fulfilled 'a | Rejected 'e

text \<open>
  A task is a zero-argument function. All the scheduler sees of the call \<^verbatim>\<open>task()\<close> is
  whether it throws on the spot or returns something that \<^verbatim>\<open>Promise.resolve\<close> turns
  into a promise; that promise settles in a later step (also when the task returned a
  plain value).
\<close>

datatype 'e task = ThrowsSync 'e | ReturnsPromise

text \<open>
  The handles returned by \<^verbatim>\<open>add\<close> are numbered by submission (0, 1, 2, ...). The
  settled ones are kept as a log, oldest first. \<^verbatim>\<open>resolve\<close> and \<^verbatim>\<open>reject\<close> of a promise
  that has settled already do nothing.
\<close>

type_synonym ('e, 'a) handles = "(nat \<times> ('e, 'a) outcome) list"

definition settle :: "nat \<Rightarrow> ('e, 'a) outcome \<Rightarrow> ('e, 'a) handles \<Rightarrow> ('e, 'a) handles" where
  "settle i out hs = (if i \<in> fst ` set hs then hs else hs @ [(i, out)])"

section \<open>PromisePool\<close>

text \<open>
  \<^verbatim>\<open>concurrency\<close>, \<^verbatim>\<open>running\<close> and \<^verbatim>\<open>queue\<close> are the fields of the class; the ceiling is
  an integer, as the data model has it. The other fields only observe the run:
  \<^verbatim>\<open>submitted\<close> counts the calls of \<^verbatim>\<open>add\<close> (and numbers the next handle), \<^verbatim>\<open>started\<close>
  lists the tasks in the order \<^verbatim>\<open>task()\<close> was called, \<^verbatim>\<open>active\<close> holds the started
  tasks whose promise has not settled yet, \<^verbatim>\<open>handles\<close> is the log of settled handles and
  \<^verbatim>\<open>unhandled\<close> collects the errors that escape from a \<^verbatim>\<open>finally\<close> callback.
\<close>

record ('e, 'a) PromisePool =
  concurrency :: int
  running :: int
  queue :: "(nat \<times> 'e task) list"
  submitted :: nat
  started :: "nat list"
  active :: "nat list"
  handles :: "('e, 'a) handles"
  unhandled :: "'e list"

definition PromisePool_new :: "int \<Rightarrow> ('e, 'a) PromisePool" where
  "PromisePool_new c =
     \<lparr>concurrency = c, running = 0, queue = [], submitted = 0, started = [], active = [],
      handles = [], unhandled = []\<rparr>"

text \<open>
  \<^verbatim>\<open>_process\<close>: while a slot is free and a task waits, count the slot, take the head of
  the queue and call the task. A task that throws on the spot ends the loop with the
  exception (the first component of the result), after the slot was counted and the
  item removed; no callback is attached for it.
\<close>

function PromisePool_process ::
  "('e, 'a) PromisePool \<Rightarrow> 'e option \<times> ('e, 'a) PromisePool" where
  "PromisePool_process p =
     (if running p < concurrency p \<and> length (queue p) > 0 then
        (case queue p of
           [] \<Rightarrow> (None, p)
         | (i, t) # rest \<Rightarrow>
             (let p1 = p\<lparr>running := running p + 1, queue := rest, started := started p @ [i]\<rparr>
              in case t of
                   ThrowsSync e \<Rightarrow> (Some e, p1)
                 | ReturnsPromise \<Rightarrow> PromisePool_process (p1\<lparr>active := active p1 @ [i]\<rparr>)))
      else (None, p))"
  by pat_completeness auto
termination
  by (relation "measure (\<lambda>p. length (queue p))") auto

declare PromisePool_process.simps [simp del]

text \<open>
  \<^verbatim>\<open>add\<close>: the executor of the new promise pushes the item and runs \<^verbatim>\<open>_process\<close>. An
  exception leaving the executor rejects the promise being constructed, that is the
  handle of the task added by this call, whichever task has thrown.
\<close>

definition PromisePool_add :: "'e task \<Rightarrow> ('e, 'a) PromisePool \<Rightarrow> ('e, 'a) PromisePool" where
  "PromisePool_add t p =
     (let i = submitted p;
          p1 = p\<lparr>queue := queue p @ [(i, t)], submitted := i + 1\<rparr>;
          (thrown, p2) = PromisePool_process p1
      in case thrown of
           None \<Rightarrow> p2
         | Some e \<Rightarrow> p2\<lparr>handles := settle i (Rejected e) (handles p2)\<rparr>)"

text \<open>
  The callbacks attached to a started task,
  \<^verbatim>\<open>.then(resolve).catch(reject).finally(() => { this.running--; this._process(); })\<close>,
  run when the task's promise settles: the handle takes the outcome, the slot is given
  back and the dispatch loop runs again. They are taken as one step. An exception leaving
  the \<^verbatim>\<open>finally\<close> callback rejects a promise nobody holds. Only a started task whose
  promise is still pending can settle.
\<close>

definition PromisePool_settled ::
  "nat \<Rightarrow> ('e, 'a) outcome \<Rightarrow> ('e, 'a) PromisePool \<Rightarrow> ('e, 'a) PromisePool" where
  "PromisePool_settled i out p =
     (if i \<in> set (active p) then
        (let p1 = p\<lparr>handles := settle i out (handles p), active := removeAll i (active p)\<rparr>;
             p2 = p1\<lparr>running := running p1 - 1\<rparr>;
             (thrown, p3) = PromisePool_process p2
         in case thrown of
              None \<Rightarrow> p3
            | Some e \<Rightarrow> p3\<lparr>unhandled := unhandled p3 @ [e]\<rparr>)
      else p)"

datatype ('e, 'a) pool_event = Add "'e task" | Settled nat "('e, 'a) outcome"

fun pool_step :: "('e, 'a) PromisePool \<Rightarrow> ('e, 'a) pool_event \<Rightarrow> ('e, 'a) PromisePool" where
  "pool_step p (Add t) = PromisePool_add t p"
| "pool_step p (Settled i out) = PromisePool_settled i out p"

fun pool_run :: "('e, 'a) PromisePool \<Rightarrow> ('e, 'a) pool_event list \<Rightarrow> ('e, 'a) PromisePool" where
  "pool_run p [] = p"
| "pool_run p (ev # evs) = pool_run (pool_step p ev) evs"

text \<open>
  \<^verbatim>\<open>PromisePool.execute(tasks, concurrency)\<close> builds a pool of its own and adds every
  task in order (the \<^verbatim>\<open>map\<close> runs in one synchronous stretch); afterwards the only
  events of this pool are settlements, since nobody else holds it.
\<close>

definition PromisePool_execute :: "'e task list \<Rightarrow> int \<Rightarrow> ('e, 'a) PromisePool" where
  "PromisePool_execute ts c = foldl (\<lambda>p t. PromisePool_add t p) (PromisePool_new c) ts"

text \<open>
  \<^verbatim>\<open>Promise.all\<close> over the handles \<open>0..<n\<close>, as a function of the log of settled handles:
  it rejects with the first rejection it observes, and otherwise fulfils, once every
  handle has fulfilled, with the values in the order of the handles. \<open>None\<close> is a
  promise still pending.
\<close>

fun first_rejection :: "('e, 'a) handles \<Rightarrow> 'e option" where
  "first_rejection [] = None"
| "first_rejection ((i, Rejected e) # hs) = Some e"
| "first_rejection ((i, Fulfilled v) # hs) = first_rejection hs"

definition fulfilled_value :: "('e, 'a) handles \<Rightarrow> nat \<Rightarrow> 'a option" where
  "fulfilled_value hs i = (case map_of hs i of Some (Fulfilled v) \<Rightarrow> Some v | _ \<Rightarrow> None)"

definition Promise_all :: "nat \<Rightarrow> ('e, 'a) handles \<Rightarrow> ('e, 'a list) outcome option" where
  "Promise_all n hs =
     (let own = filter (\<lambda>(i, out). i < n) hs
      in case first_rejection own of
           Some e \<Rightarrow> Some (Rejected e)
         | None \<Rightarrow>
             if list_all (\<lambda>i. fulfilled_value own i \<noteq> None) [0..<n]
             then Some (Fulfilled (map (\<lambda>i. the (fulfilled_value own i)) [0..<n]))
             else None)"

section \<open>AsyncQueue\<close>

text \<open>
  \<^verbatim>\<open>tasks\<close> and \<^verbatim>\<open>processing\<close> are the fields of the class. The observing fields are as
  for the pool: \<^verbatim>\<open>q_submitted\<close> counts the calls of \<^verbatim>\<open>add\<close>, \<^verbatim>\<open>q_started\<close> lists the
  tasks in the order they were called, \<^verbatim>\<open>q_executing\<close> holds the tasks called and not
  yet settled, and \<^verbatim>\<open>q_handles\<close> is the log of settled handles, oldest first.
\<close>

record ('e, 'a) AsyncQueue =
  tasks :: "(nat \<times> 'e task) list"
  processing :: bool
  q_submitted :: nat
  q_started :: "nat list"
  q_executing :: "nat list"
  q_handles :: "('e, 'a) handles"

definition AsyncQueue_new :: "('e, 'a) AsyncQueue" where
  "AsyncQueue_new =
     \<lparr>tasks = [], processing = False, q_submitted = 0, q_started = [], q_executing = [],
      q_handles = []\<rparr>"

text \<open>
  \<^verbatim>\<open>_processNext\<close> up to its \<^verbatim>\<open>await\<close>: nothing to do while a task is processed or the
  queue is empty; otherwise set the flag, take the head and call the task inside
  \<^verbatim>\<open>try\<close>. A task that throws on the spot is caught at once: its handle is rejected, and
  the \<^verbatim>\<open>finally\<close> block clears the flag and calls \<^verbatim>\<open>_processNext\<close> again, all in the
  same stretch.
\<close>

function AsyncQueue_processNext :: "('e, 'a) AsyncQueue \<Rightarrow> ('e, 'a) AsyncQueue" where
  "AsyncQueue_processNext q =
     (if processing q \<or> length (tasks q) = 0 then q
      else
        (case tasks q of
           [] \<Rightarrow> q
         | (i, t) # rest \<Rightarrow>
             (let q1 = q\<lparr>processing := True, tasks := rest, q_started := q_started q @ [i],
                        q_executing := q_executing q @ [i]\<rparr>
              in case t of
                   ThrowsSync e \<Rightarrow>
                     AsyncQueue_processNext
                       (q1\<lparr>q_handles := settle i (Rejected e) (q_handles q1),
                           q_executing := removeAll i (q_executing q1),
                           processing := False\<rparr>)
                 | ReturnsPromise \<Rightarrow> q1)))"
  by pat_completeness auto
termination
  by (relation "measure (\<lambda>q. length (tasks q))") auto

declare AsyncQueue_processNext.simps [simp del]

definition AsyncQueue_add :: "'e task \<Rightarrow> ('e, 'a) AsyncQueue \<Rightarrow> ('e, 'a) AsyncQueue" where
  "AsyncQueue_add t q =
     AsyncQueue_processNext
       (q\<lparr>tasks := tasks q @ [(q_submitted q, t)], q_submitted := q_submitted q + 1\<rparr>)"

definition AsyncQueue_size :: "('e, 'a) AsyncQueue \<Rightarrow> nat" where
  "AsyncQueue_size q = length (tasks q)"

definition AsyncQueue_clear :: "('e, 'a) AsyncQueue \<Rightarrow> ('e, 'a) AsyncQueue" where
  "AsyncQueue_clear q = q\<lparr>tasks := []\<rparr>"

text \<open>
  \<^verbatim>\<open>_processNext\<close> after its \<^verbatim>\<open>await\<close>, when the promise of the task in progress has
  settled: \<^verbatim>\<open>resolve(result)\<close> or \<^verbatim>\<open>reject(error)\<close>, then the \<^verbatim>\<open>finally\<close> block.
\<close>

definition AsyncQueue_settled ::
  "nat \<Rightarrow> ('e, 'a) outcome \<Rightarrow> ('e, 'a) AsyncQueue \<Rightarrow> ('e, 'a) AsyncQueue" where
  "AsyncQueue_settled i out q =
     (if i \<in> set (q_executing q) then
        AsyncQueue_processNext
          (q\<lparr>q_handles := settle i out (q_handles q),
             q_executing := removeAll i (q_executing q),
             processing := False\<rparr>)
      else q)"

datatype ('e, 'a) queue_event = QAdd "'e task" | QSettled nat "('e, 'a) outcome" | QClear

fun queue_step :: "('e, 'a) AsyncQueue \<Rightarrow> ('e, 'a) queue_event \<Rightarrow> ('e, 'a) AsyncQueue" where
  "queue_step q (QAdd t) = AsyncQueue_add t q"
| "queue_step q (QSettled i out) = AsyncQueue_settled i out q"
| "queue_step q QClear = AsyncQueue_clear q"

fun queue_run :: "('e, 'a) AsyncQueue \<Rightarrow> ('e, 'a) queue_event list \<Rightarrow> ('e, 'a) AsyncQueue" where
  "queue_run q [] = q"
| "queue_run q (ev # evs) = queue_run (queue_step q ev) evs"

section \<open>RetryPolicy\<close>

text \<open>
  The fields are JavaScript numbers. \<^verbatim>\<open>maxRetries\<close> is compared with the integer loop
  counter and is an integer here; the delays are only multiplied, in whatever
  arithmetic \<open>'d\<close> has.
\<close>

record 'd RetryPolicy =
  maxRetries :: int
  delay :: 'd
  backoff :: 'd

text \<open>
  What a call of \<^verbatim>\<open>execute\<close> does: its outcome (\<open>Rejected None\<close> is \<^verbatim>\<open>throw undefined\<close>,
  the value of \<^verbatim>\<open>lastError\<close> before any attempt), how often it invoked \<^verbatim>\<open>fn\<close>, and the
  durations it slept, in order.
\<close>

record ('e, 'a, 'd) retry_run =
  result :: "('e option, 'a) outcome"
  calls :: nat
  sleeps :: "'d list"

text \<open>
  The \<^verbatim>\<open>for\<close> loop of \<^verbatim>\<open>execute\<close>. The task may behave differently each time it is
  invoked: \<open>fn n\<close> is the outcome of invocation number \<open>n\<close> (counted from 0), whether the
  task threw or its promise was rejected, both of which \<^verbatim>\<open>try\<close>/\<^verbatim>\<open>await\<close> catch alike.
\<close>

function RetryPolicy_loop ::
  "('d::times) RetryPolicy \<Rightarrow> (nat \<Rightarrow> ('e, 'a) outcome) \<Rightarrow> int \<Rightarrow> 'e option \<Rightarrow> 'd \<Rightarrow> nat \<Rightarrow>
   'd list \<Rightarrow> ('e, 'a, 'd) retry_run" where
  "RetryPolicy_loop pol fn i lastError currentDelay n slept =
     (if i \<le> maxRetries pol then
        (case fn n of
           Fulfilled v \<Rightarrow> \<lparr>result = Fulfilled v, calls = n + 1, sleeps = slept\<rparr>
         | Rejected error \<Rightarrow>
             if i < maxRetries pol
             then RetryPolicy_loop pol fn (i + 1) (Some error) (currentDelay * backoff pol)
                    (n + 1) (slept @ [currentDelay])
             else RetryPolicy_loop pol fn (i + 1) (Some error) currentDelay (n + 1) slept)
      else \<lparr>result = Rejected lastError, calls = n, sleeps = slept\<rparr>)"
  by pat_completeness auto
termination
  by (relation "measure (\<lambda>(pol, fn, i, lastError, currentDelay, n, slept).
        nat (maxRetries pol + 1 - i))") auto

declare RetryPolicy_loop.simps [simp del]

definition RetryPolicy_execute ::
  "('d::times) RetryPolicy \<Rightarrow> (nat \<Rightarrow> ('e, 'a) outcome) \<Rightarrow> ('e, 'a, 'd) retry_run" where
  "RetryPolicy_execute pol fn = RetryPolicy_loop pol fn 0 None (delay pol) 0 []"

section \<open>Timeout\<close>

text \<open>
  \<^verbatim>\<open>Timeout.promise(promise, timeoutMs)\<close> is \<^verbatim>\<open>Promise.race\<close> of the given promise and a
  promise that a timer, armed with \<^verbatim>\<open>setTimeout(..., timeoutMs)\<close>, rejects with
  \<^verbatim>\<open>new Error('Promise timed out')\<close>. The race takes the outcome of whichever settles
  first and, being a promise, ignores what comes after.

  Times are milliseconds counted from the call. The given promise is described by the
  time at which it settles and its outcome, or \<open>None\<close> when it never settles.
\<close>

datatype 'e race_error = PromiseTimedOut | PromiseError 'e

datatype ('e, 'a) race_event = PromiseSettled "('e, 'a) outcome" | TimerFired




fun race_outcome :: "('e, 'a) race_event \<Rightarrow> ('e race_error, 'a) outcome" where
  "race_outcome (PromiseSettled (Fulfilled v)) = Fulfilled v"
| "race_outcome (PromiseSettled (Rejected e)) = Rejected (PromiseError e)"
| "race_outcome TimerFired = Rejected PromiseTimedOut"

text \<open>
  \<^verbatim>\<open>Promise.race\<close>: pending (\<open>None\<close>) until the first delivery, then settled for good, at
  the time and with the outcome of that delivery.
\<close>

fun race_step ::
  "(nat \<times> ('e race_error, 'a) outcome) option \<Rightarrow> nat \<times> ('e, 'a) race_event \<Rightarrow>
   (nat \<times> ('e race_error, 'a) outcome) option" where
  "race_step (Some r) ev = Some r"
| "race_step None (t, ev) = Some (t, race_outcome ev)"


section \<open>CachePromise\<close>

text \<open>
  The cache maps a key to \<^verbatim>\<open>{ value, expiry }\<close>, where \<^verbatim>\<open>expiry\<close> is \<^verbatim>\<open>null\<close> or a time.
  Times (\<^verbatim>\<open>Date.now()\<close>, milliseconds) and durations are natural numbers.
\<close>

record 'v cache_entry =
  cached_value :: 'v
  expiry :: "nat option"

type_synonym ('k, 'v) cache = "'k \<rightharpoonup> 'v cache_entry"

text \<open>
  The first part of \<^verbatim>\<open>memoize\<close>, at time \<open>now\<close>: an entry is used when
  \<^verbatim>\<open>!cached.expiry || Date.now() < cached.expiry\<close> (\<^verbatim>\<open>null\<close> and 0 are both falsy),
  and deleted otherwise. The result is the cached value, if used, and the cache.
\<close>

definition memoize_lookup :: "'k \<Rightarrow> nat \<Rightarrow> ('k, 'v) cache \<Rightarrow> 'v option \<times> ('k, 'v) cache" where
  "memoize_lookup key now c =
     (case c key of
        None \<Rightarrow> (None, c)
      | Some cached \<Rightarrow>
          if (case expiry cached of None \<Rightarrow> True | Some x \<Rightarrow> x = 0 \<or> now < x)
          then (Some (cached_value cached), c)
          else (None, c(key := None)))"

text \<open>
  The second part, at the time \<open>now\<close> at which the task's promise is fulfilled with \<open>v\<close>:
  \<^verbatim>\<open>ttl ? Date.now() + ttl : null\<close> (a \<^verbatim>\<open>ttl\<close> of \<^verbatim>\<open>null\<close> or 0 is falsy), then
  \<^verbatim>\<open>cache.set\<close>.
\<close>

definition memoize_store :: "'k \<Rightarrow> nat option \<Rightarrow> 'v \<Rightarrow> nat \<Rightarrow> ('k, 'v) cache \<Rightarrow> ('k, 'v) cache" where
  "memoize_store key ttl v now c =
     c(key \<mapsto> \<lparr>cached_value = v,
                expiry = (case ttl of None \<Rightarrow> None
                          | Some d \<Rightarrow> if d = 0 then None else Some (now + d))\<rparr>)"

text \<open>
  One call of \<^verbatim>\<open>memoize(key, fn, ttl)\<close> made at time \<open>t0\<close>, with no other call in between:
  \<open>fn\<close> is the outcome the task has when it is invoked and \<open>t1\<close> the time at which that
  outcome arrives. The result is what the returned promise settles with, the number of
  times the task was invoked, and the cache afterwards. A task that fails (throws, or
  rejects) makes the \<^verbatim>\<open>await\<close> throw, and the \<^verbatim>\<open>async\<close> function rejects with that error
  before it reaches \<^verbatim>\<open>cache.set\<close>.
\<close>

definition CachePromise_memoize ::
  "'k \<Rightarrow> ('e, 'v) outcome \<Rightarrow> nat option \<Rightarrow> nat \<Rightarrow> nat \<Rightarrow> ('k, 'v) cache \<Rightarrow>
   ('e, 'v) outcome \<times> nat \<times> ('k, 'v) cache" where
  "CachePromise_memoize key fn ttl t0 t1 c =
     (case memoize_lookup key t0 c of
        (Some v, c1) \<Rightarrow> (Fulfilled v, 0, c1)
      | (None, c1) \<Rightarrow>
          (case fn of
             Rejected e \<Rightarrow> (Rejected e, 1, c1)
           | Fulfilled v \<Rightarrow> (Fulfilled v, 1, memoize_store key ttl v t1 c1)))"

section \<open>AsyncIterator\<close>

text \<open>
  \<^verbatim>\<open>batch(asyncIterable, batchSize)\<close> over a source that yields the elements of a finite
  list: \<open>current\<close> is the local array \<^verbatim>\<open>batch\<close>, the result lists the arrays yielded.
  \<^verbatim>\<open>batchSize\<close> is a number, compared with \<^verbatim>\<open>===\<close> to the length.
\<close>

fun batch_loop :: "int \<Rightarrow> 'a list \<Rightarrow> 'a list \<Rightarrow> 'a list list" where
  "batch_loop batchSize current [] = (if length current > 0 then [current] else [])"
| "batch_loop batchSize current (item # items) =
     (let current1 = current @ [item]
      in if int (length current1) = batchSize
         then current1 # batch_loop batchSize [] items
         else batch_loop batchSize current1 items)"

definition AsyncIterator_batch :: "'a list \<Rightarrow> int \<Rightarrow> 'a list list" where
  "AsyncIterator_batch xs batchSize = batch_loop batchSize [] xs"

section \<open>Invariants\<close>

text \<open>
  The predicates below are not part of the program; they state what holds of its states.

  \<open>queue_inv\<close> holds of every state of an \<^verbatim>\<open>AsyncQueue\<close>; \<open>queue_fifo\<close> says that every
  task submitted so far is either waiting or was started, in the order of submission;
  \<open>queue_gone i\<close> says that task \<open>i\<close> was submitted, is not waiting and was not started.
\<close>

definition queue_inv :: "('e, 'a) AsyncQueue \<Rightarrow> bool" where
  "queue_inv q \<longleftrightarrow>
     length (q_executing q) \<le> 1 \<and>
     (processing q \<longleftrightarrow> q_executing q \<noteq> []) \<and>
     map fst (q_handles q) @ q_executing q = q_started q \<and>
     distinct (q_started q @ map fst (tasks q)) \<and>
     (\<forall>i \<in> set (q_started q @ map fst (tasks q)). i < q_submitted q)"

definition queue_fifo :: "('e, 'a) AsyncQueue \<Rightarrow> bool" where
  "queue_fifo q \<longleftrightarrow> q_started q @ map fst (tasks q) = [0..<q_submitted q]"

definition queue_gone :: "nat \<Rightarrow> ('e, 'a) AsyncQueue \<Rightarrow> bool" where
  "queue_gone i q \<longleftrightarrow>
     i < q_submitted q \<and> i \<notin> set (q_started q) \<and> i \<notin> fst ` set (tasks q)"

text \<open>
  \<open>pool_inv\<close> holds of every state of a \<^verbatim>\<open>PromisePool\<close>. \<open>pool_async\<close> holds as long as
  no task has thrown on the spot, and \<open>pool_idle\<close> after a dispatch loop that ended
  without an exception: no task waits while a slot is free. \<open>promises_only\<close> are the
  events in which every task added returns a promise; \<open>settlements_only\<close> are events
  without a call of \<^verbatim>\<open>add\<close>.
\<close>

definition pool_inv :: "('e, 'a) PromisePool \<Rightarrow> bool" where
  "pool_inv p \<longleftrightarrow>
     int (length (active p)) \<le> running p \<and>
     started p @ map fst (queue p) = [0..<submitted p] \<and>
     set (active p) \<subseteq> set (started p) \<and>
     distinct (active p) \<and>
     distinct (map fst (handles p)) \<and>
     (\<forall>i \<in> fst ` set (handles p). i < submitted p)"

definition pool_async :: "('e, 'a) PromisePool \<Rightarrow> bool" where
  "pool_async p \<longleftrightarrow>
     (\<forall>t \<in> snd ` set (queue p). t = ReturnsPromise) \<and>
     running p = int (length (active p)) \<and>
     fst ` set (handles p) = set (started p) - set (active p) \<and>
     unhandled p = []"

definition pool_idle :: "('e, 'a) PromisePool \<Rightarrow> bool" where
  "pool_idle p \<longleftrightarrow> queue p = [] \<or> concurrency p \<le> running p"

definition promises_only :: "('e, 'a) pool_event list \<Rightarrow> bool" where
  "promises_only evs =
     list_all (\<lambda>ev. case ev of Add (ThrowsSync e) \<Rightarrow> False | _ \<Rightarrow> True) evs"

definition settlements_only :: "('e, 'a) pool_event list \<Rightarrow> bool" where
  "settlements_only evs = list_all (\<lambda>ev. case ev of Settled i out \<Rightarrow> True | _ \<Rightarrow> False) evs"

text \<open>
  No entry of the cache has the expiry 0 (which \<^verbatim>\<open>!cached.expiry\<close> would take for no
  expiry): \<^verbatim>\<open>memoize\<close> stores \<^verbatim>\<open>Date.now() + ttl\<close> only for a \<^verbatim>\<open>ttl\<close> that is not 0.
\<close>

definition no_zero_expiry :: "('k, 'v) cache \<Rightarrow> bool" where
  "no_zero_expiry c \<longleftrightarrow> (\<forall>k e. c k = Some e \<longrightarrow> expiry e \<noteq> Some 0)"

section \<open>Batching\<close>

lemma batch_loop_fill:
  "length cur < n \<Longrightarrow>
   batch_loop (int n) cur xs =
     (if length cur + length xs < n then (if cur @ xs = [] then [] else [cur @ xs])
      else (cur @ take (n - length cur) xs) #
           batch_loop (int n) [] (drop (n - length cur) xs))"
proof (induction xs arbitrary: cur)
  case Nil
  then show ?case by simp
next
  case (Cons x xs)
  show ?case
  proof (cases "Suc (length cur) = n")
    case True
    then show ?thesis by (auto simp: Let_def)
  next
    case False
    with Cons.prems have lt: "length (cur @ [x]) < n" by simp
    have eq: "n - length cur = Suc (n - length (cur @ [x]))" using lt by simp
    show ?thesis
      using False lt Cons.IH [OF lt] by (simp add: Let_def eq)
  qed
qed

lemma batch_loop_chunks:
  "0 < n \<Longrightarrow>
   batch_loop (int n) [] xs =
     map (\<lambda>i. take n (drop (i * n) xs)) [0..<(length xs + n - 1) div n]"
proof (induction "length xs" arbitrary: xs rule: less_induct)
  case less
  show ?case
  proof (cases "length xs < n")
    case True
    show ?thesis
    proof (cases "xs = []")
      case True
      with less.prems show ?thesis by simp
    next
      case False
      with True less.prems have "(length xs + n - 1) div n = 1"
        by (cases xs) (simp_all add: div_add_self2)
      with True False less.prems show ?thesis
        by (simp add: batch_loop_fill [of "[]", simplified])
    qed
  next
    case False
    then have ge: "n \<le> length xs" by simp
    from ge less.prems have len: "length (drop n xs) < length xs" by simp
    from ge less.prems have cnt: "(length xs + n - 1) div n = Suc ((length (drop n xs) + n - 1) div n)"
      by (subst le_div_geq) (simp_all add: algebra_simps)
    have "batch_loop (int n) [] xs = take n xs # batch_loop (int n) [] (drop n xs)"
      using False less.prems by (simp add: batch_loop_fill [of "[]", simplified])
    also have "batch_loop (int n) [] (drop n xs) =
        map (\<lambda>i. take n (drop (i * n) (drop n xs))) [0..<(length (drop n xs) + n - 1) div n]"
      using len less.prems by (rule less.hyps)
    finally have unfolded: "batch_loop (int n) [] xs =
        take n xs #
        map (\<lambda>i. take n (drop (i * n) (drop n xs))) [0..<(length (drop n xs) + n - 1) div n]" .
    have "map (\<lambda>i. take n (drop (i * n) xs)) [0..<Suc m] =
          take n xs # map (\<lambda>i. take n (drop (i * n) (drop n xs))) [0..<m]" for m
      by (simp add: map_upt_Suc add.commute del: upt_Suc)
    with unfolded show ?thesis by (simp only: cnt)
  qed
qed


lemma concat_batch_loop: "concat (batch_loop k cur xs) = cur @ xs"
  by (induction xs arbitrary: cur) (simp_all add: Let_def)

lemma ceil_div_qr:
  assumes "r < (n::nat)"
  shows "(q * n + r + n - Suc 0) div n = (if r = 0 then q else Suc q)"
proof (cases "r = 0")
  case True
  from assms have "q * n + r + n - Suc 0 = q * n + (n - Suc 0)" using True by simp
  moreover from assms have "(q * n + (n - Suc 0)) div n = q"
    by (subst div_mult_self3) simp_all
  ultimately show ?thesis using True by simp
next
  case False
  then have "q * n + r + n - Suc 0 = Suc q * n + (r - Suc 0)" by simp
  moreover from assms have "(Suc q * n + (r - Suc 0)) div n = Suc q"
    by (subst div_mult_self3) simp_all
  ultimately show ?thesis using False by simp
qed

lemma ceil_div_cases:
  assumes "0 < (n::nat)"
  shows "(len + n - Suc 0) div n = (if len mod n = 0 then len div n else Suc (len div n))"
proof -
  have "(len div n * n + len mod n + n - Suc 0) div n =
        (if len mod n = 0 then len div n else Suc (len div n))"
    using assms by (intro ceil_div_qr) simp
  then show ?thesis by (simp only: div_mult_mod_eq)
qed

lemma chunk_length:
  assumes "0 < n" and "i < (len + n - Suc 0) div n"
  shows "min n (len - i * n) =
         (if Suc i < (len + n - Suc 0) div n \<or> len mod n = 0 then n else len mod n)"
proof (cases "Suc i < (len + n - Suc 0) div n \<or> len mod n = 0")
  case True
  with assms have "Suc i \<le> len div n"
    by (simp only: ceil_div_cases split: if_splits) auto
  then have "Suc i * n \<le> (len div n) * n" by (rule mult_le_mono1)
  also have "\<dots> \<le> len" by simp
  finally have "n \<le> len - i * n" by simp
  with True show ?thesis by simp
next
  case False
  with assms have i: "i = len div n"
    by (simp only: ceil_div_cases split: if_splits) auto
  have "len - (len div n) * n = len mod n"
    by (simp add: minus_div_mult_eq_mod)
  with False i assms(1) show ?thesis by simp
qed

text \<open>
  C7. For a batch size \<open>k \<ge> 1\<close>, \<^verbatim>\<open>batch\<close> yields the elements of the source in
  consecutive groups that do not overlap: group \<open>i\<close> is the \<open>k\<close> elements from position
  \<open>i * k\<close> on, the groups put together give the source back, every group has exactly
  \<open>k\<close> elements except that the last one has the \<open>length xs mod k\<close> left-over elements
  when the length is not a multiple of \<open>k\<close>, and an empty source yields nothing.
\<close>

theorem batch_groups:
  assumes "1 \<le> k"
  shows "AsyncIterator_batch xs k =
           map (\<lambda>i. take (nat k) (drop (i * nat k) xs)) [0..<(length xs + nat k - Suc 0) div nat k] \<and>
         concat (AsyncIterator_batch xs k) = xs \<and>
         (\<forall>i < length (AsyncIterator_batch xs k).
            length (AsyncIterator_batch xs k ! i) =
              (if Suc i < length (AsyncIterator_batch xs k) \<or> length xs mod nat k = 0
               then nat k else length xs mod nat k)) \<and>
         (xs = [] \<longrightarrow> AsyncIterator_batch xs k = [])"
proof -
  define n where "n = nat k"
  with assms have n: "0 < n" and k: "k = int n" by simp_all
  let ?m = "(length xs + n - Suc 0) div n"
  have eq: "AsyncIterator_batch xs k = map (\<lambda>i. take n (drop (i * n) xs)) [0..<?m]"
    unfolding AsyncIterator_batch_def k using batch_loop_chunks [OF n, of xs] by simp
  have len: "length (AsyncIterator_batch xs k) = ?m" by (simp add: eq)
  have "length (AsyncIterator_batch xs k ! i) =
          (if Suc i < ?m \<or> length xs mod n = 0 then n else length xs mod n)" if "i < ?m" for i
    using that chunk_length [OF n that] by (simp add: eq del: upt_Suc)
  moreover have "concat (AsyncIterator_batch xs k) = xs"
    by (simp add: AsyncIterator_batch_def concat_batch_loop)
  moreover have "xs = [] \<longrightarrow> AsyncIterator_batch xs k = []"
    by (simp add: AsyncIterator_batch_def)
  ultimately show ?thesis using eq len unfolding n_def [symmetric] by (simp del: upt_Suc)
qed

theorem batch_groups_witness:
  "(1::int) \<le> 2 \<and> AsyncIterator_batch [1, 2, 3, 4, 5 :: nat] 2 = [[1, 2], [3, 4], [5]] \<and>
   AsyncIterator_batch ([] :: nat list) 2 = []"
  using batch_groups [of 2 "[1, 2, 3, 4, 5 :: nat]"] batch_groups [of 2 "[] :: nat list"]
  by (simp add: AsyncIterator_batch_def)

section \<open>Retrying\<close>

lemma retry_loop_stop:
  "\<not> i \<le> maxRetries pol \<Longrightarrow>
   RetryPolicy_loop pol fn i lastError currentDelay n slept =
     \<lparr>result = Rejected lastError, calls = n, sleeps = slept\<rparr>"
  by (simp add: RetryPolicy_loop.simps [of pol fn i])

lemma retry_loop_success:
  "i \<le> maxRetries pol \<Longrightarrow> fn n = Fulfilled v \<Longrightarrow>
   RetryPolicy_loop pol fn i lastError currentDelay n slept =
     \<lparr>result = Fulfilled v, calls = n + 1, sleeps = slept\<rparr>"
  by (simp add: RetryPolicy_loop.simps [of pol fn i])

lemma retry_loop_retry:
  "i < maxRetries pol \<Longrightarrow> fn n = Rejected e \<Longrightarrow>
   RetryPolicy_loop pol fn i lastError currentDelay n slept =
     RetryPolicy_loop pol fn (i + 1) (Some e) (currentDelay * backoff pol) (n + 1)
       (slept @ [currentDelay])"
  by (simp add: RetryPolicy_loop.simps [of pol fn i])

lemma retry_loop_last:
  "fn n = Rejected e \<Longrightarrow>
   RetryPolicy_loop pol fn (maxRetries pol) lastError currentDelay n slept =
     \<lparr>result = Rejected (Some e), calls = n + 1, sleeps = slept\<rparr>"
  by (simp add: RetryPolicy_loop.simps [of pol fn "maxRetries pol"] retry_loop_stop)

lemma retry_loop_failing:
  assumes "\<forall>n. fn n = Rejected (err n)"
  shows "i \<le> maxRetries pol \<Longrightarrow> k = nat (maxRetries pol - i) \<Longrightarrow>
         calls (RetryPolicy_loop pol fn i lastError currentDelay n slept) = n + k + 1 \<and>
         result (RetryPolicy_loop pol fn i lastError currentDelay n slept) =
           Rejected (Some (err (n + k))) \<and>
         length (sleeps (RetryPolicy_loop pol fn i lastError currentDelay n slept)) =
           length slept + k"
proof (induction k arbitrary: i lastError currentDelay n slept)
  case 0
  then have "i = maxRetries pol" by simp
  with assms show ?case by (simp add: retry_loop_last [where e = "err n"])
next
  case (Suc k)
  then have lt: "i < maxRetries pol" and k: "k = nat (maxRetries pol - (i + 1))" by linarith+
  from lt have le: "i + 1 \<le> maxRetries pol" by simp
  from assms have "fn n = Rejected (err n)" by simp
  with lt have "RetryPolicy_loop pol fn i lastError currentDelay n slept =
     RetryPolicy_loop pol fn (i + 1) (Some (err n)) (currentDelay * backoff pol) (n + 1)
       (slept @ [currentDelay])" by (rule retry_loop_retry)
  with Suc.IH [OF le k] show ?case by simp
qed

text \<open>
  C4. With \<^verbatim>\<open>maxRetries\<close> \<open>m \<ge> 0\<close> and a task that fails every time it is invoked (its
  \<open>n\<close>-th invocation with the error \<open>err n\<close>), \<^verbatim>\<open>execute\<close> invokes the task exactly
  \<open>m + 1\<close> times and rejects with the error of the last invocation, \<open>err m\<close>; it sleeps
  \<open>m\<close> times, so with \<open>m = 0\<close> there is one invocation and no wait.
\<close>

theorem retry_always_failing:
  assumes "0 \<le> maxRetries pol" and "\<forall>n. fn n = Rejected (err n)"
  shows "calls (RetryPolicy_execute pol fn) = nat (maxRetries pol) + 1 \<and>
         result (RetryPolicy_execute pol fn) = Rejected (Some (err (nat (maxRetries pol)))) \<and>
         length (sleeps (RetryPolicy_execute pol fn)) = nat (maxRetries pol) \<and>
         (maxRetries pol = 0 \<longrightarrow> sleeps (RetryPolicy_execute pol fn) = [])"
  using retry_loop_failing [OF assms(2), of 0 pol "nat (maxRetries pol)" None "delay pol" 0 "[]"]
    assms(1)
  by (auto simp: RetryPolicy_execute_def)

theorem retry_always_failing_witness:
  "(0::int) \<le> 1 \<and>
   calls (RetryPolicy_execute \<lparr>maxRetries = 1, delay = 10 :: int, backoff = 2\<rparr>
            (\<lambda>n. Rejected (100 + n) :: (nat, unit) outcome)) = 2 \<and>
   result (RetryPolicy_execute \<lparr>maxRetries = 1, delay = 10 :: int, backoff = 2\<rparr>
            (\<lambda>n. Rejected (100 + n) :: (nat, unit) outcome)) = Rejected (Some 101) \<and>
   calls (RetryPolicy_execute \<lparr>maxRetries = 0, delay = 10 :: int, backoff = 2\<rparr>
            (\<lambda>n. Rejected (100 + n) :: (nat, unit) outcome)) = 1 \<and>
   sleeps (RetryPolicy_execute \<lparr>maxRetries = 0, delay = 10 :: int, backoff = 2\<rparr>
            (\<lambda>n. Rejected (100 + n) :: (nat, unit) outcome)) = []"
  using retry_always_failing
          [of "\<lparr>maxRetries = 1, delay = 10 :: int, backoff = 2\<rparr>"
              "\<lambda>n. Rejected (100 + n) :: (nat, unit) outcome" "\<lambda>n. 100 + n"]
        retry_always_failing
          [of "\<lparr>maxRetries = 0, delay = 10 :: int, backoff = 2\<rparr>"
              "\<lambda>n. Rejected (100 + n) :: (nat, unit) outcome" "\<lambda>n. 100 + n"]
  by simp

section \<open>The deadline guard\<close>

lemma race_settled_stays: "foldl race_step (Some r) evs = Some r"
  by (induction evs) simp_all







section \<open>The memoization cache\<close>

lemma lookup_hit:
  "c key = Some e \<Longrightarrow> expiry e = None \<or> (\<exists>x. expiry e = Some x \<and> t0 < x) \<Longrightarrow>
   memoize_lookup key t0 c = (Some (cached_value e), c)"
  by (auto simp: memoize_lookup_def)

lemma lookup_miss:
  assumes "no_zero_expiry c"
    and "c key = None \<or> (\<exists>e x. c key = Some e \<and> expiry e = Some x \<and> x \<le> t0)"
  shows "memoize_lookup key t0 c = (None, c(key := None))"
proof (cases "c key")
  case None
  then show ?thesis by (simp add: memoize_lookup_def fun_upd_idem)
next
  case (Some e)
  with assms(2) obtain x where x: "expiry e = Some x" "x \<le> t0" by auto
  from assms(1) Some have "expiry e \<noteq> Some 0" by (simp add: no_zero_expiry_def)
  with x Some show ?thesis by (auto simp: memoize_lookup_def)
qed

lemma memoize_invokes:
  "fst (memoize_lookup key t0 c) = None \<Longrightarrow>
   fst (snd (CachePromise_memoize key fn ttl t0 t1 c)) = 1"
  by (cases "memoize_lookup key t0 c"; cases fn) (simp_all add: CachePromise_memoize_def)

lemma store_no_zero_expiry:
  "no_zero_expiry c \<Longrightarrow> no_zero_expiry (memoize_store key ttl v now c)"
  by (auto simp: no_zero_expiry_def memoize_store_def split: option.splits if_splits)

lemma lookup_no_zero_expiry:
  "no_zero_expiry c \<Longrightarrow> no_zero_expiry (snd (memoize_lookup key now c))"
  by (auto simp: no_zero_expiry_def memoize_lookup_def split: option.splits if_splits)

lemma memoize_no_zero_expiry:
  "no_zero_expiry c \<Longrightarrow> no_zero_expiry (snd (snd (CachePromise_memoize key fn ttl t0 t1 c)))"
  using lookup_no_zero_expiry [of c key t0]
  by (cases "memoize_lookup key t0 c")
     (auto simp: CachePromise_memoize_def store_no_zero_expiry split: option.splits outcome.splits)

lemma memoize_hit:
  "c key = Some e \<Longrightarrow> expiry e = None \<or> (\<exists>x. expiry e = Some x \<and> t0 < x) \<Longrightarrow>
   CachePromise_memoize key fn ttl t0 t1 c = (Fulfilled (cached_value e), 0, c)"
  by (simp add: CachePromise_memoize_def lookup_hit)

lemma memoize_compute:
  "no_zero_expiry c \<Longrightarrow>
   c key = None \<or> (\<exists>e x. c key = Some e \<and> expiry e = Some x \<and> x \<le> t0) \<Longrightarrow>
   CachePromise_memoize key (Fulfilled v) ttl t0 t1 c =
     (Fulfilled v, 1,
      c(key \<mapsto> \<lparr>cached_value = v,
                 expiry = (case ttl of None \<Rightarrow> None
                           | Some d \<Rightarrow> if d = 0 then None else Some (t1 + d))\<rparr>))"
  by (simp add: CachePromise_memoize_def lookup_miss memoize_store_def)

text \<open>
  C6. For a cache as \<^verbatim>\<open>memoize\<close> builds it, a call made at time \<open>t0\<close>: when the key has
  an entry without expiry, or with an expiry later than \<open>t0\<close>, the stored value is returned
  and the task is not invoked; when the key has no entry, or one whose expiry has passed,
  the task is invoked once and, when it is fulfilled with \<open>v\<close> at time \<open>t1\<close>, \<open>v\<close> is returned
  and stored with the expiry \<open>t1 + ttl\<close> (no expiry when \<^verbatim>\<open>ttl\<close> is \<^verbatim>\<open>null\<close> or 0). So
  after such a call with a \<^verbatim>\<open>ttl\<close> \<open>d > 0\<close>, a call before \<open>t1 + d\<close> returns \<open>v\<close> without
  invoking its task, and a call at \<open>t1 + d\<close> or later invokes its task again.
\<close>

theorem memoize_hit_or_compute:
  assumes "no_zero_expiry c"
  shows "(\<forall>e. c key = Some e \<and> (expiry e = None \<or> (\<exists>x. expiry e = Some x \<and> t0 < x)) \<longrightarrow>
            CachePromise_memoize key fn ttl t0 t1 c = (Fulfilled (cached_value e), 0, c)) \<and>
         (\<forall>v. (c key = None \<or> (\<exists>e x. c key = Some e \<and> expiry e = Some x \<and> x \<le> t0)) \<and>
              fn = Fulfilled v \<longrightarrow>
            CachePromise_memoize key fn ttl t0 t1 c =
              (Fulfilled v, 1,
               c(key \<mapsto> \<lparr>cached_value = v,
                          expiry = (case ttl of None \<Rightarrow> None
                                    | Some d \<Rightarrow> if d = 0 then None else Some (t1 + d))\<rparr>))) \<and>
         (\<forall>v d c1 t2 t2' fn2 t3 t3' fn3.
            (c key = None \<or> (\<exists>e x. c key = Some e \<and> expiry e = Some x \<and> x \<le> t0)) \<and>
            fn = Fulfilled v \<and> ttl = Some d \<and> 0 < d \<and>
            c1 = snd (snd (CachePromise_memoize key fn ttl t0 t1 c)) \<and>
            t2 < t1 + d \<and> t1 + d \<le> t3 \<longrightarrow>
              CachePromise_memoize key fn2 ttl t2 t2' c1 = (Fulfilled v, 0, c1) \<and>
              fst (snd (CachePromise_memoize key fn3 ttl t3 t3' c1)) = 1) \<and>
         no_zero_expiry (snd (snd (CachePromise_memoize key fn ttl t0 t1 c)))"
proof (intro conjI allI impI)
  fix e assume "c key = Some e \<and> (expiry e = None \<or> (\<exists>x. expiry e = Some x \<and> t0 < x))"
  then show "CachePromise_memoize key fn ttl t0 t1 c = (Fulfilled (cached_value e), 0, c)"
    by (simp add: memoize_hit)
next
  fix v
  assume "(c key = None \<or> (\<exists>e x. c key = Some e \<and> expiry e = Some x \<and> x \<le> t0)) \<and>
          fn = Fulfilled v"
  with assms show "CachePromise_memoize key fn ttl t0 t1 c =
      (Fulfilled v, 1,
       c(key \<mapsto> \<lparr>cached_value = v,
                  expiry = (case ttl of None \<Rightarrow> None
                            | Some d \<Rightarrow> if d = 0 then None else Some (t1 + d))\<rparr>))"
    by (simp add: memoize_compute)
next
  fix v d c1 t2 t2' fn2 t3 t3' fn3
  assume h: "(c key = None \<or> (\<exists>e x. c key = Some e \<and> expiry e = Some x \<and> x \<le> t0)) \<and>
            fn = Fulfilled v \<and> ttl = Some d \<and> 0 < d \<and>
            c1 = snd (snd (CachePromise_memoize key fn ttl t0 t1 c)) \<and>
            t2 < t1 + d \<and> t1 + d \<le> t3"
  with assms have c1: "c1 = c(key \<mapsto> \<lparr>cached_value = v, expiry = Some (t1 + d)\<rparr>)"
    by (simp add: memoize_compute)
  from assms have ok: "no_zero_expiry c1"
    using h memoize_no_zero_expiry [of c key fn ttl t0 t1] by simp
  from c1 h show "CachePromise_memoize key fn2 ttl t2 t2' c1 = (Fulfilled v, 0, c1)"
    using memoize_hit [of c1 key "\<lparr>cached_value = v, expiry = Some (t1 + d)\<rparr>" t2 fn2 ttl t2']
    by simp
  from c1 h have "memoize_lookup key t3 c1 = (None, c1(key := None))"
    by (intro lookup_miss ok) simp
  then show "fst (snd (CachePromise_memoize key fn3 ttl t3 t3' c1)) = 1"
    by (simp add: memoize_invokes)
next
  from assms show "no_zero_expiry (snd (snd (CachePromise_memoize key fn ttl t0 t1 c)))"
    by (rule memoize_no_zero_expiry)
qed

theorem memoize_hit_or_compute_witness:
  "no_zero_expiry (Map.empty :: (string, nat) cache) \<and>
   CachePromise_memoize ''k'' (Fulfilled 42 :: (unit, nat) outcome) (Some 100) 0 5 Map.empty =
     (Fulfilled 42, 1, [''k'' \<mapsto> \<lparr>cached_value = 42, expiry = Some 105\<rparr>]) \<and>
   CachePromise_memoize ''k'' (Fulfilled 43 :: (unit, nat) outcome) (Some 100) 60 65
       [''k'' \<mapsto> \<lparr>cached_value = 42, expiry = Some 105\<rparr>] =
     (Fulfilled 42, 0, [''k'' \<mapsto> \<lparr>cached_value = 42, expiry = Some 105\<rparr>]) \<and>
   fst (snd (CachePromise_memoize ''k'' (Fulfilled 43 :: (unit, nat) outcome) (Some 100) 105 110
       [''k'' \<mapsto> \<lparr>cached_value = 42, expiry = Some 105\<rparr>])) = 1"
proof -
  have h: "no_zero_expiry (Map.empty :: (string, nat) cache)"
    by (simp add: no_zero_expiry_def)
  from h memoize_hit_or_compute
         [OF h, where key = "''k''" and ?t0.0 = 0 and fn = "Fulfilled 42 :: (unit, nat) outcome"
            and ttl = "Some 100" and ?t1.0 = 5]
  show ?thesis
    by (simp add: CachePromise_memoize_def memoize_lookup_def memoize_store_def)
qed

text \<open>
  C10, as the code has it. When the task is invoked and fails, \<^verbatim>\<open>memoize\<close> rejects with
  the task's error and stores nothing: afterwards the key has no entry, every other key
  is as before, and the next call for the key invokes its task again. The cache is the
  same as before when the key had no entry; an entry of the key whose expiry had passed
  was deleted before the task was invoked and stays deleted.
\<close>

theorem memoize_failure:
  assumes "fn = Rejected err" and "fst (snd (CachePromise_memoize key fn ttl t0 t1 c)) = 1"
  shows "fst (CachePromise_memoize key fn ttl t0 t1 c) = Rejected err \<and>
         snd (snd (CachePromise_memoize key fn ttl t0 t1 c)) = c(key := None) \<and>
         (c key = None \<longrightarrow> snd (snd (CachePromise_memoize key fn ttl t0 t1 c)) = c) \<and>
         fst (snd (CachePromise_memoize key fn2 ttl2 t2 t3
                    (snd (snd (CachePromise_memoize key fn ttl t0 t1 c))))) = 1"
proof -
  from assms have r: "CachePromise_memoize key fn ttl t0 t1 c = (Rejected err, 1, c(key := None))"
    by (auto simp: CachePromise_memoize_def memoize_lookup_def split: option.splits if_splits)
  have "fst (snd (CachePromise_memoize key fn2 ttl2 t2 t3 (c(key := None)))) = 1"
    by (rule memoize_invokes) (simp add: memoize_lookup_def)
  with r show ?thesis by auto
qed

theorem memoize_failure_witness:
  "fst (snd (CachePromise_memoize ''k'' (Rejected 7 :: (nat, nat) outcome) (Some 50) 200 201
              [''k'' \<mapsto> \<lparr>cached_value = 1, expiry = Some 100\<rparr>])) = 1 \<and>
   fst (CachePromise_memoize ''k'' (Rejected 7 :: (nat, nat) outcome) (Some 50) 200 201
              [''k'' \<mapsto> \<lparr>cached_value = 1, expiry = Some 100\<rparr>]) = Rejected 7 \<and>
   snd (snd (CachePromise_memoize ''k'' (Rejected 7 :: (nat, nat) outcome) (Some 50) 200 201
              [''k'' \<mapsto> \<lparr>cached_value = 1, expiry = Some 100\<rparr>])) = Map.empty"
proof -
  have h: "fst (snd (CachePromise_memoize ''k'' (Rejected 7 :: (nat, nat) outcome) (Some 50) 200 201
              [''k'' \<mapsto> \<lparr>cached_value = 1, expiry = Some 100\<rparr>])) = 1"
    by (simp add: CachePromise_memoize_def memoize_lookup_def)
  from memoize_failure [OF refl h, where ?fn2.0 = "Rejected 0" and ?ttl2.0 = None
                          and ?t2.0 = 0 and ?t3.0 = 0]
  show ?thesis
    by (simp add: CachePromise_memoize_def memoize_lookup_def)
qed

text \<open>
  C10 as stated fails: with an expired entry for the key and a failing task, the cache
  after the call differs from the cache before it.
\<close>

theorem memoize_failure_counterexample:
  "snd (snd (CachePromise_memoize ''k'' (Rejected 7 :: (nat, nat) outcome) (Some 50) 200 201
              [''k'' \<mapsto> \<lparr>cached_value = 1, expiry = Some 100\<rparr>])) \<noteq>
   [''k'' \<mapsto> \<lparr>cached_value = 1, expiry = Some 100\<rparr>]"
proof
  assume "snd (snd (CachePromise_memoize ''k'' (Rejected 7 :: (nat, nat) outcome) (Some 50) 200 201
              [''k'' \<mapsto> \<lparr>cached_value = 1, expiry = Some 100\<rparr>])) =
   [''k'' \<mapsto> \<lparr>cached_value = 1 :: nat, expiry = Some 100\<rparr>]"
  then have "snd (snd (CachePromise_memoize ''k'' (Rejected 7 :: (nat, nat) outcome) (Some 50) 200 201
              [''k'' \<mapsto> \<lparr>cached_value = 1, expiry = Some 100\<rparr>])) ''k'' =
   [''k'' \<mapsto> \<lparr>cached_value = 1 :: nat, expiry = Some 100\<rparr>] ''k''"
    by (rule fun_cong)
  then show False by (simp add: CachePromise_memoize_def memoize_lookup_def)
qed

section \<open>The serial queue\<close>

lemma processNext_stop:
  "processing q \<or> tasks q = [] \<Longrightarrow> AsyncQueue_processNext q = q"
  by (auto simp: AsyncQueue_processNext.simps [of q])

lemma processNext_throw:
  "\<not> processing q \<Longrightarrow> tasks q = (i, ThrowsSync e) # rest \<Longrightarrow>
   AsyncQueue_processNext q =
     AsyncQueue_processNext
       (q\<lparr>tasks := rest, q_started := q_started q @ [i],
          q_handles := settle i (Rejected e) (q_handles q),
          q_executing := removeAll i (q_executing q @ [i]), processing := False\<rparr>)"
  by (simp add: AsyncQueue_processNext.simps [of q])

lemma processNext_go:
  "\<not> processing q \<Longrightarrow> tasks q = (i, ReturnsPromise) # rest \<Longrightarrow>
   AsyncQueue_processNext q =
     q\<lparr>processing := True, tasks := rest, q_started := q_started q @ [i],
       q_executing := q_executing q @ [i]\<rparr>"
  by (simp add: AsyncQueue_processNext.simps [of q])

lemma processNext_induct [case_names stop throw go]:
  assumes stop: "\<And>q. processing q \<or> tasks q = [] \<Longrightarrow> P q"
    and throw: "\<And>q i e rest. \<not> processing q \<Longrightarrow> tasks q = (i, ThrowsSync e) # rest \<Longrightarrow>
                  P (q\<lparr>tasks := rest, q_started := q_started q @ [i],
          q_handles := settle i (Rejected e) (q_handles q),
          q_executing := removeAll i (q_executing q @ [i]), processing := False\<rparr>) \<Longrightarrow> P q"
    and go: "\<And>q i rest. \<not> processing q \<Longrightarrow> tasks q = (i, ReturnsPromise) # rest \<Longrightarrow> P q"
  shows "P q"
proof (induction "length (tasks q)" arbitrary: q rule: less_induct)
  case less
  show ?case
  proof (cases "processing q \<or> tasks q = []")
    case True
    then show ?thesis by (rule stop)
  next
    case False
    then obtain i t rest where q: "tasks q = (i, t) # rest" by (cases "tasks q") auto
    show ?thesis
    proof (cases t)
      case (ThrowsSync e)
      have "P (q\<lparr>tasks := rest, q_started := q_started q @ [i],
          q_handles := settle i (Rejected e) (q_handles q),
          q_executing := removeAll i (q_executing q @ [i]), processing := False\<rparr>)"
        by (rule less) (simp add: q)
      with False q ThrowsSync show ?thesis by (auto intro: throw)
    next
      case ReturnsPromise
      with False q show ?thesis by (auto intro: go)
    qed
  qed
qed

lemma settle_fresh: "i \<notin> fst ` set hs \<Longrightarrow> settle i out hs = hs @ [(i, out)]"
  by (simp add: settle_def)

lemma settle_known: "i \<in> fst ` set hs \<Longrightarrow> settle i out hs = hs"
  by (simp add: settle_def)

lemma processNext_inv: "queue_inv q \<Longrightarrow> queue_inv (AsyncQueue_processNext q)"
proof (induction q rule: processNext_induct)
  case (stop q)
  then show ?case by (simp add: processNext_stop)
next
  case (throw q i e rest)
  from throw.prems throw.hyps have ex: "q_executing q = []" by (simp add: queue_inv_def)
  from throw.prems ex have hs: "map fst (q_handles q) = q_started q" by (simp add: queue_inv_def)
  from throw.prems throw.hyps(2) have new: "i \<notin> set (q_started q)"
    and d: "distinct (q_started q @ i # map fst rest)"
    and b: "\<forall>j \<in> set (q_started q @ i # map fst rest). j < q_submitted q"
    by (simp_all add: queue_inv_def)
  from hs new have fresh: "i \<notin> fst ` set (q_handles q)" by (metis set_map)
  have "queue_inv (q\<lparr>tasks := rest, q_started := q_started q @ [i],
          q_handles := settle i (Rejected e) (q_handles q),
          q_executing := removeAll i (q_executing q @ [i]), processing := False\<rparr>)"
    unfolding queue_inv_def using ex hs d b throw.hyps(1)
    by (simp add: settle_fresh [OF fresh])
  with throw.IH show ?case by (simp only: processNext_throw [OF throw.hyps])
next
  case (go q i rest)
  then have "q_executing q = []" by (simp add: queue_inv_def)
  with go show ?case by (simp add: processNext_go queue_inv_def)
qed

lemma processNext_idle:
  "tasks (AsyncQueue_processNext q) = [] \<or> processing (AsyncQueue_processNext q)"
proof (induction q rule: processNext_induct)
  case (stop q)
  then show ?case by (auto simp: processNext_stop)
next
  case (throw q i e rest)
  then show ?case by (simp only: processNext_throw [OF throw.hyps])
next
  case (go q i rest)
  then show ?case by (simp add: processNext_go)
qed

lemma processNext_fifo: "queue_fifo q \<Longrightarrow> queue_fifo (AsyncQueue_processNext q)"
proof (induction q rule: processNext_induct)
  case (stop q)
  then show ?case by (simp add: processNext_stop)
next
  case (throw q i e rest)
  from throw.prems throw.hyps(2) have "queue_fifo (q\<lparr>tasks := rest, q_started := q_started q @ [i],
          q_handles := settle i (Rejected e) (q_handles q),
          q_executing := removeAll i (q_executing q @ [i]), processing := False\<rparr>)"
    by (simp add: queue_fifo_def)
  with throw.IH show ?case by (simp only: processNext_throw [OF throw.hyps])
next
  case (go q i rest)
  then show ?case by (simp add: processNext_go queue_fifo_def)
qed

lemma processNext_submitted: "q_submitted (AsyncQueue_processNext q) = q_submitted q"
proof (induction q rule: processNext_induct)
  case (stop q)
  then show ?case by (simp add: processNext_stop)
next
  case (throw q i e rest)
  then show ?case by (simp add: processNext_throw [OF throw.hyps])
next
  case (go q i rest)
  then show ?case by (simp add: processNext_go)
qed

lemma processNext_gone: "queue_gone i q \<Longrightarrow> queue_gone i (AsyncQueue_processNext q)"
proof (induction q rule: processNext_induct)
  case (stop q)
  then show ?case by (simp add: processNext_stop)
next
  case (throw q j e rest)
  from throw.prems throw.hyps(2)
  have "queue_gone i (q\<lparr>tasks := rest, q_started := q_started q @ [j],
          q_handles := settle j (Rejected e) (q_handles q),
          q_executing := removeAll j (q_executing q @ [j]), processing := False\<rparr>)"
    by (auto simp: queue_gone_def)
  with throw.IH show ?case by (simp only: processNext_throw [OF throw.hyps])
next
  case (go q j rest)
  then show ?case by (auto simp: processNext_go queue_gone_def)
qed

lemma queue_add_inv: "queue_inv q \<Longrightarrow> queue_inv (AsyncQueue_add t q)"
proof -
  assume inv: "queue_inv q"
  then have b: "\<forall>i \<in> set (q_started q @ map fst (tasks q)). i < q_submitted q"
    by (simp add: queue_inv_def)
  then have new: "q_submitted q \<notin> set (q_started q @ map fst (tasks q))" by blast
  from b have b': "\<forall>i \<in> set (q_started q @ map fst (tasks q)). i < Suc (q_submitted q)"
    by (meson less_Suc_eq)
  from inv new b'
  have "queue_inv (q\<lparr>tasks := tasks q @ [(q_submitted q, t)],
                     q_submitted := q_submitted q + 1\<rparr>)"
    by (simp add: queue_inv_def)
  then show ?thesis unfolding AsyncQueue_add_def by (rule processNext_inv)
qed

lemma queue_settled_inv: "queue_inv q \<Longrightarrow> queue_inv (AsyncQueue_settled i out q)"
proof (cases "i \<in> set (q_executing q)")
  case False
  assume "queue_inv q" with False show ?thesis by (simp add: AsyncQueue_settled_def)
next
  case True
  assume inv: "queue_inv q"
  with True have ex: "q_executing q = [i]"
    by (cases "q_executing q") (auto simp: queue_inv_def)
  with inv have started: "q_started q = map fst (q_handles q) @ [i]"
    by (simp add: queue_inv_def)
  with inv have fresh: "i \<notin> fst ` set (q_handles q)" by (auto simp: queue_inv_def)
  from inv ex fresh
  have "queue_inv (q\<lparr>q_handles := settle i out (q_handles q),
                      q_executing := removeAll i (q_executing q), processing := False\<rparr>)"
    by (auto simp: queue_inv_def settle_fresh)
  then have "queue_inv (AsyncQueue_processNext
                     (q\<lparr>q_handles := settle i out (q_handles q),
                        q_executing := removeAll i (q_executing q), processing := False\<rparr>))"
    by (rule processNext_inv)
  with True show ?thesis by (simp add: AsyncQueue_settled_def)
qed

lemma queue_clear_inv: "queue_inv q \<Longrightarrow> queue_inv (AsyncQueue_clear q)"
  by (auto simp: queue_inv_def AsyncQueue_clear_def)

lemma queue_run_inv: "queue_inv q \<Longrightarrow> queue_inv (queue_run q evs)"
proof (induction evs arbitrary: q)
  case (Cons ev evs)
  then show ?case
    by (cases ev) (simp_all add: queue_add_inv queue_settled_inv queue_clear_inv)
qed simp

lemma queue_new_inv: "queue_inv AsyncQueue_new"
  by (simp add: queue_inv_def AsyncQueue_new_def)

lemma queue_step_fifo: "QClear \<noteq> ev \<Longrightarrow> queue_fifo q \<Longrightarrow> queue_fifo (queue_step q ev)"
proof (cases ev)
  case (QAdd t)
  assume "queue_fifo q"
  then have "queue_fifo (q\<lparr>tasks := tasks q @ [(q_submitted q, t)],
                            q_submitted := q_submitted q + 1\<rparr>)"
    by (simp add: queue_fifo_def)
  with QAdd show ?thesis by (simp add: AsyncQueue_add_def processNext_fifo)
next
  case (QSettled i out)
  assume "queue_fifo q"
  then have "queue_fifo (q\<lparr>q_handles := settle i out (q_handles q),
                      q_executing := removeAll i (q_executing q), processing := False\<rparr>)"
    by (simp add: queue_fifo_def)
  with QSettled \<open>queue_fifo q\<close> show ?thesis
    by (simp add: AsyncQueue_settled_def processNext_fifo)
qed simp

lemma queue_run_fifo: "QClear \<notin> set evs \<Longrightarrow> queue_fifo q \<Longrightarrow> queue_fifo (queue_run q evs)"
  by (induction evs arbitrary: q) (simp_all add: queue_step_fifo)

lemma queue_step_idle:
  "tasks q = [] \<or> processing q \<Longrightarrow> tasks (queue_step q ev) = [] \<or> processing (queue_step q ev)"
  by (cases ev) (auto simp: AsyncQueue_add_def AsyncQueue_settled_def AsyncQueue_clear_def
        processNext_idle)

lemma queue_run_idle:
  "tasks q = [] \<or> processing q \<Longrightarrow> tasks (queue_run q evs) = [] \<or> processing (queue_run q evs)"
proof (induction evs arbitrary: q)
  case (Cons ev evs)
  from Cons.prems have "tasks (queue_step q ev) = [] \<or> processing (queue_step q ev)"
    by (rule queue_step_idle)
  then show ?case using Cons.IH by simp
qed simp

lemma queue_step_gone: "queue_gone i q \<Longrightarrow> queue_gone i (queue_step q ev)"
proof (cases ev)
  case (QAdd t)
  assume "queue_gone i q"
  then have "queue_gone i (q\<lparr>tasks := tasks q @ [(q_submitted q, t)],
                            q_submitted := q_submitted q + 1\<rparr>)"
    by (auto simp: queue_gone_def)
  with QAdd show ?thesis by (simp add: AsyncQueue_add_def processNext_gone)
next
  case (QSettled j out)
  assume g: "queue_gone i q"
  then have "queue_gone i (q\<lparr>q_handles := settle j out (q_handles q),
                      q_executing := removeAll j (q_executing q), processing := False\<rparr>)"
    by (simp add: queue_gone_def)
  with QSettled g show ?thesis by (simp add: AsyncQueue_settled_def processNext_gone)
next
  case QClear
  assume "queue_gone i q"
  with QClear show ?thesis by (simp add: queue_gone_def AsyncQueue_clear_def)
qed

lemma queue_run_gone: "queue_gone i q \<Longrightarrow> queue_gone i (queue_run q evs)"
  by (induction evs arbitrary: q) (simp_all add: queue_step_gone)

lemma upt_prefix: "xs @ ys = [0..<n] \<Longrightarrow> xs = [0..<length xs]"
proof -
  assume h: "xs @ ys = [0..<n]"
  then have "length xs \<le> n" by (metis length_append length_upt le_add1 diff_zero)
  moreover from h have "xs = take (length xs) [0..<n]" by (metis append_eq_conv_conj)
  ultimately show ?thesis by (simp add: take_upt)
qed

text \<open>
  C2. For tasks added to a new \<^verbatim>\<open>AsyncQueue\<close> and settling in any way (\<^verbatim>\<open>clear\<close> is not
  called), in every state: at most one task is executing; the tasks started are the first
  ones submitted, in order; every started task but the one executing has settled, so
  that a task starts only after all tasks submitted before it have settled; and the
  handles have settled in exactly the order of submission.
\<close>

theorem serial_queue_order:
  assumes "QClear \<notin> set evs" and "q = queue_run AsyncQueue_new evs"
  shows "length (q_executing q) \<le> 1 \<and>
         q_started q @ map fst (tasks q) = [0..<q_submitted q] \<and>
         map fst (q_handles q) @ q_executing q = q_started q \<and>
         (\<forall>i j. i \<in> set (q_started q) \<and> j < i \<longrightarrow> j \<in> fst ` set (q_handles q)) \<and>
         map fst (q_handles q) = [0..<length (q_handles q)]"
proof -
  from assms(2) have inv: "queue_inv q" by (simp add: queue_run_inv queue_new_inv)
  have "queue_fifo AsyncQueue_new" by (simp add: queue_fifo_def AsyncQueue_new_def)
  with assms have fifo: "q_started q @ map fst (tasks q) = [0..<q_submitted q]"
    using queue_run_fifo [of evs AsyncQueue_new] by (simp add: queue_fifo_def)
  from inv have one: "length (q_executing q) \<le> 1"
    and split: "map fst (q_handles q) @ q_executing q = q_started q"
    by (simp_all add: queue_inv_def)
  from fifo have st: "q_started q = [0..<length (q_started q)]" by (rule upt_prefix)
  with split have "map fst (q_handles q) @ q_executing q = [0..<length (q_started q)]" by simp
  then have hs: "map fst (q_handles q) = [0..<length (q_handles q)]"
    using upt_prefix [of "map fst (q_handles q)"] by simp
  have "j \<in> fst ` set (q_handles q)" if "i \<in> set (q_started q)" and "j < i" for i j
  proof -
    from that(1) st have "i < length (q_started q)" by (metis atLeastLessThan_iff set_upt)
    moreover from split have "length (q_started q) = length (q_handles q) + length (q_executing q)"
      by (metis length_append length_map)
    ultimately have "j < length (q_handles q)" using one that(2) by simp
    then have "j \<in> set (map fst (q_handles q))" by (subst hs) simp
    then show ?thesis by simp
  qed
  with one fifo split hs show ?thesis by blast
qed

theorem serial_queue_order_witness:
  "QClear \<notin> set [QAdd ReturnsPromise, QAdd (ThrowsSync 9), QAdd ReturnsPromise,
                  QSettled 0 (Fulfilled 1), QSettled 2 (Rejected 2) :: (nat, nat) queue_event] \<and>
   q_started (queue_run AsyncQueue_new
     [QAdd ReturnsPromise, QAdd (ThrowsSync 9), QAdd ReturnsPromise,
      QSettled 0 (Fulfilled 1), QSettled 2 (Rejected 2) :: (nat, nat) queue_event]) = [0, 1, 2] \<and>
   q_handles (queue_run AsyncQueue_new
     [QAdd ReturnsPromise, QAdd (ThrowsSync 9), QAdd ReturnsPromise,
      QSettled 0 (Fulfilled 1), QSettled 2 (Rejected 2) :: (nat, nat) queue_event]) =
     [(0, Fulfilled 1), (1, Rejected 9), (2, Rejected 2)] \<and>
   length (q_executing (queue_run AsyncQueue_new
     [QAdd ReturnsPromise, QAdd (ThrowsSync 9), QAdd ReturnsPromise,
      QSettled 0 (Fulfilled 1), QSettled 2 (Rejected 2) :: (nat, nat) queue_event])) \<le> 1"
proof -
  let ?evs = "[QAdd ReturnsPromise, QAdd (ThrowsSync 9), QAdd ReturnsPromise,
               QSettled 0 (Fulfilled 1), QSettled 2 (Rejected 2) :: (nat, nat) queue_event]"
  have noclear: "QClear \<notin> set ?evs" by simp
  have run: "q_started (queue_run AsyncQueue_new ?evs) = [0, 1, 2] \<and>
             q_handles (queue_run AsyncQueue_new ?evs) =
               [(0, Fulfilled 1), (1, Rejected 9), (2, Rejected 2)]"
    by code_simp
  from serial_queue_order [OF noclear refl] noclear run show ?thesis by simp
qed

section \<open>The worker pool\<close>

lemma process_stop:
  "\<not> (running p < concurrency p \<and> queue p \<noteq> []) \<Longrightarrow> PromisePool_process p = (None, p)"
  by (simp add: PromisePool_process.simps [of p])

lemma process_throw:
  "running p < concurrency p \<Longrightarrow> queue p = (i, ThrowsSync e) # rest \<Longrightarrow>
   PromisePool_process p =
     (Some e, p\<lparr>running := running p + 1, queue := rest, started := started p @ [i]\<rparr>)"
  by (simp add: PromisePool_process.simps [of p])

lemma process_go:
  "running p < concurrency p \<Longrightarrow> queue p = (i, ReturnsPromise) # rest \<Longrightarrow>
   PromisePool_process p =
     PromisePool_process
       (p\<lparr>running := running p + 1, queue := rest, started := started p @ [i],
          active := active p @ [i]\<rparr>)"
  by (simp add: PromisePool_process.simps [of p])

lemma process_induct [case_names stop throw go]:
  assumes stop: "\<And>p. \<not> (running p < concurrency p \<and> queue p \<noteq> []) \<Longrightarrow> P p"
    and throw: "\<And>p i e rest. running p < concurrency p \<Longrightarrow>
                  queue p = (i, ThrowsSync e) # rest \<Longrightarrow> P p"
    and go: "\<And>p i rest. running p < concurrency p \<Longrightarrow>
               queue p = (i, ReturnsPromise) # rest \<Longrightarrow>
               P (p\<lparr>running := running p + 1, queue := rest, started := started p @ [i],
                    active := active p @ [i]\<rparr>) \<Longrightarrow> P p"
  shows "P p"
proof (induction "length (queue p)" arbitrary: p rule: less_induct)
  case less
  show ?case
  proof (cases "running p < concurrency p \<and> queue p \<noteq> []")
    case False
    then show ?thesis by (rule stop)
  next
    case True
    then obtain i t rest where q: "queue p = (i, t) # rest" by (cases "queue p") auto
    show ?thesis
    proof (cases t)
      case (ThrowsSync e)
      with True q show ?thesis by (auto intro: throw)
    next
      case ReturnsPromise
      have "P (p\<lparr>running := running p + 1, queue := rest, started := started p @ [i],
                 active := active p @ [i]\<rparr>)"
        by (rule less) (simp add: q)
      with True q ReturnsPromise show ?thesis by (auto intro: go)
    qed
  qed
qed

lemma settle_ids: "fst ` set (settle i out hs) = insert i (fst ` set hs)"
  by (auto simp: settle_def)

lemma settle_distinct: "distinct (map fst hs) \<Longrightarrow> distinct (map fst (settle i out hs))"
  by (auto simp: settle_def)

lemma process_fields:
  "concurrency (snd (PromisePool_process p)) = concurrency p \<and>
   submitted (snd (PromisePool_process p)) = submitted p \<and>
   handles (snd (PromisePool_process p)) = handles p \<and>
   unhandled (snd (PromisePool_process p)) = unhandled p"
proof (induction p rule: process_induct)
  case (stop p)
  then show ?case by (simp add: process_stop)
next
  case (throw p i e rest)
  then show ?case by (simp add: process_throw [OF throw.hyps])
next
  case (go p i rest)
  then show ?case by (simp add: process_go [OF go.hyps])
qed

lemma process_bound:
  "running p \<le> concurrency p \<Longrightarrow>
   running (snd (PromisePool_process p)) \<le> concurrency p"
proof (induction p rule: process_induct)
  case (stop p)
  then show ?case by (simp add: process_stop)
next
  case (throw p i e rest)
  then show ?case by (simp add: process_throw [OF throw.hyps])
next
  case (go p i rest)
  then show ?case by (simp add: process_go [OF go.hyps])
qed

lemma process_inv: "pool_inv p \<Longrightarrow> pool_inv (snd (PromisePool_process p))"
proof (induction p rule: process_induct)
  case (stop p)
  then show ?case by (simp add: process_stop)
next
  case (throw p i e rest)
  then show ?case by (auto simp: process_throw [OF throw.hyps] pool_inv_def)
next
  case (go p i rest)
  from go.prems go.hyps(2) have "distinct (started p @ i # map fst rest)"
    unfolding pool_inv_def by (metis distinct_upt list.simps(9) fst_conv)
  then have new: "i \<notin> set (started p)" by simp
  with go.prems have "i \<notin> set (active p)" unfolding pool_inv_def by blast
  with go.prems go.hyps(2)
  have "pool_inv (p\<lparr>running := running p + 1, queue := rest, started := started p @ [i],
              active := active p @ [i]\<rparr>)"
    unfolding pool_inv_def by (simp add: subset_insertI2)
  with go.IH show ?case by (simp only: process_go [OF go.hyps])
qed

lemma process_idle:
  "fst (PromisePool_process p) = None \<Longrightarrow> pool_idle (snd (PromisePool_process p))"
proof (induction p rule: process_induct)
  case (stop p)
  then show ?case by (auto simp: process_stop pool_idle_def)
next
  case (throw p i e rest)
  then show ?case by (simp add: process_throw [OF throw.hyps])
next
  case (go p i rest)
  then show ?case by (simp only: process_go [OF go.hyps])
qed

lemma process_async:
  "pool_async p \<Longrightarrow> pool_inv p \<Longrightarrow>
   fst (PromisePool_process p) = None \<and> pool_async (snd (PromisePool_process p))"
proof (induction p rule: process_induct)
  case (stop p)
  then show ?case by (simp add: process_stop)
next
  case (throw p i e rest)
  then show ?case by (simp add: pool_async_def)
next
  case (go p i rest)
  let ?p' = "p\<lparr>running := running p + 1, queue := rest, started := started p @ [i],
              active := active p @ [i]\<rparr>"
  from go.prems(2) go.hyps(2) have "distinct (started p @ i # map fst rest)"
    unfolding pool_inv_def by (metis distinct_upt list.simps(9) fst_conv)
  then have new: "i \<notin> set (started p)" by simp
  with go.prems(2) have na: "i \<notin> set (active p)" unfolding pool_inv_def by blast
  from go.prems(2) go.hyps(2) na new have inv': "pool_inv ?p'"
    unfolding pool_inv_def by (simp add: subset_insertI2)
  from go.prems(1) go.hyps(2) new na have "pool_async ?p'"
    unfolding pool_async_def by auto
  with go.IH inv' show ?case by (simp only: process_go [OF go.hyps])
qed

lemma add_unfold:
  "PromisePool_add t p =
     (let r = PromisePool_process
                (p\<lparr>queue := queue p @ [(submitted p, t)], submitted := submitted p + 1\<rparr>)
      in case fst r of
           None \<Rightarrow> snd r
         | Some e \<Rightarrow> (snd r)\<lparr>handles := settle (submitted p) (Rejected e) (handles (snd r))\<rparr>)"
  by (simp add: PromisePool_add_def Let_def case_prod_beta)

lemma settled_unfold:
  "i \<in> set (active p) \<Longrightarrow>
   PromisePool_settled i out p =
     (let r = PromisePool_process
                (p\<lparr>handles := settle i out (handles p), active := removeAll i (active p),
                   running := running p - 1\<rparr>)
      in case fst r of
           None \<Rightarrow> snd r
         | Some e \<Rightarrow> (snd r)\<lparr>unhandled := unhandled (snd r) @ [e]\<rparr>)"
  by (simp add: PromisePool_settled_def Let_def case_prod_beta split: option.splits)

lemma settled_ignored: "i \<notin> set (active p) \<Longrightarrow> PromisePool_settled i out p = p"
  by (simp add: PromisePool_settled_def)

lemma pool_inv_enqueue:
  assumes "pool_inv p"
  shows "pool_inv (p\<lparr>queue := queue p @ [(submitted p, t)], submitted := submitted p + 1\<rparr>)"
proof -
  from assms have "\<forall>i \<in> fst ` set (handles p). i < Suc (submitted p)"
    unfolding pool_inv_def by (meson less_Suc_eq)
  with assms show ?thesis unfolding pool_inv_def by simp
qed

lemma pool_inv_release:
  assumes "pool_inv p" and "i \<in> set (active p)"
  shows "pool_inv (p\<lparr>handles := settle i out (handles p), active := removeAll i (active p),
                     running := running p - 1\<rparr>)"
proof -
  from assms have "length (removeAll i (active p)) < length (active p)"
    by (simp add: length_removeAll_less)
  moreover from assms have "i < submitted p"
    unfolding pool_inv_def
    by (metis atLeastLessThan_iff set_upt subsetD set_append UnI1)
  moreover have "set (removeAll i (active p)) \<subseteq> set (active p)" by auto
  ultimately show ?thesis
    using assms(1) unfolding pool_inv_def
    by (auto simp: settle_ids settle_distinct distinct_removeAll)
qed

lemma add_inv: "pool_inv p \<Longrightarrow> pool_inv (PromisePool_add t p)"
proof -
  assume inv: "pool_inv p"
  let ?p1 = "p\<lparr>queue := queue p @ [(submitted p, t)], submitted := submitted p + 1\<rparr>"
  from inv have "pool_inv ?p1" by (rule pool_inv_enqueue)
  then have inv2: "pool_inv (snd (PromisePool_process ?p1))" by (rule process_inv)
  show ?thesis
  proof (cases "fst (PromisePool_process ?p1)")
    case None
    with inv2 show ?thesis by (simp add: add_unfold Let_def)
  next
    case (Some e)
    from inv2 have "pool_inv ((snd (PromisePool_process ?p1))
        \<lparr>handles := settle (submitted p) (Rejected e) (handles (snd (PromisePool_process ?p1)))\<rparr>)"
      unfolding pool_inv_def using process_fields [of ?p1]
      by (auto simp: settle_ids settle_distinct)
    with Some show ?thesis by (simp add: add_unfold Let_def)
  qed
qed

lemma settled_inv: "pool_inv p \<Longrightarrow> pool_inv (PromisePool_settled i out p)"
proof (cases "i \<in> set (active p)")
  case False
  assume "pool_inv p" with False show ?thesis by (simp add: settled_ignored)
next
  case True
  assume inv: "pool_inv p"
  let ?p2 = "p\<lparr>handles := settle i out (handles p), active := removeAll i (active p),
               running := running p - 1\<rparr>"
  from inv True have "pool_inv ?p2" by (rule pool_inv_release)
  then have inv3: "pool_inv (snd (PromisePool_process ?p2))" by (rule process_inv)
  show ?thesis
  proof (cases "fst (PromisePool_process ?p2)")
    case None
    with inv3 True show ?thesis by (simp add: settled_unfold Let_def)
  next
    case (Some e)
    from inv3 have "pool_inv ((snd (PromisePool_process ?p2))
        \<lparr>unhandled := unhandled (snd (PromisePool_process ?p2)) @ [e]\<rparr>)"
      unfolding pool_inv_def by simp
    with Some True show ?thesis by (simp add: settled_unfold Let_def)
  qed
qed

lemma step_inv: "pool_inv p \<Longrightarrow> pool_inv (pool_step p ev)"
  by (cases ev) (simp_all add: add_inv settled_inv)

lemma run_inv: "pool_inv p \<Longrightarrow> pool_inv (pool_run p evs)"
  by (induction evs arbitrary: p) (simp_all add: step_inv)

lemma new_inv: "pool_inv (PromisePool_new c)"
  by (simp add: pool_inv_def PromisePool_new_def)

lemma step_concurrency: "concurrency (pool_step p ev) = concurrency p"
proof (cases ev)
  case (Add t)
  then show ?thesis
    using process_fields
            [of "p\<lparr>queue := queue p @ [(submitted p, t)], submitted := submitted p + 1\<rparr>"]
    by (simp add: add_unfold Let_def split: option.splits)
next
  case (Settled i out)
  then show ?thesis
    using process_fields
            [of "p\<lparr>handles := settle i out (handles p), active := removeAll i (active p),
                   running := running p - 1\<rparr>"]
    by (cases "i \<in> set (active p)")
       (simp_all add: settled_unfold settled_ignored Let_def split: option.splits)
qed

lemma step_bound: "running p \<le> concurrency p \<Longrightarrow> running (pool_step p ev) \<le> concurrency p"
proof (cases ev)
  case (Add t)
  assume "running p \<le> concurrency p"
  with Add show ?thesis
    using process_bound
            [of "p\<lparr>queue := queue p @ [(submitted p, t)], submitted := submitted p + 1\<rparr>"]
    by (simp add: add_unfold Let_def split: option.splits)
next
  case (Settled i out)
  assume "running p \<le> concurrency p"
  with Settled show ?thesis
    using process_bound
            [of "p\<lparr>handles := settle i out (handles p), active := removeAll i (active p),
                   running := running p - 1\<rparr>"]
    by (cases "i \<in> set (active p)")
       (simp_all add: settled_unfold settled_ignored Let_def split: option.splits)
qed

lemma run_bound:
  "running p \<le> concurrency p \<Longrightarrow>
   running (pool_run p evs) \<le> concurrency p \<and> concurrency (pool_run p evs) = concurrency p"
proof (induction evs arbitrary: p)
  case Nil
  then show ?case by simp
next
  case (Cons ev evs)
  from Cons.prems have "running (pool_step p ev) \<le> concurrency (pool_step p ev)"
    by (simp add: step_bound step_concurrency)
  from Cons.IH [OF this] show ?case by (simp add: step_concurrency)
qed

lemma length_removeAll_distinct:
  assumes "distinct xs" and "i \<in> set xs"
  shows "int (length (removeAll i xs)) = int (length xs) - 1"
proof -
  from assms(1) have "removeAll i xs = remove1 i xs" by (simp add: distinct_remove1_removeAll)
  with assms(2) have "length (removeAll i xs) = length xs - 1" by (simp add: length_remove1)
  moreover from assms(2) have "0 < length xs" by (rule length_pos_if_in_set)
  ultimately show ?thesis by linarith
qed

lemma add_async:
  assumes "pool_inv p" and "pool_async p"
  shows "pool_async (PromisePool_add ReturnsPromise p) \<and>
         pool_idle (PromisePool_add ReturnsPromise p) \<and>
         handles (PromisePool_add ReturnsPromise p) = handles p"
proof -
  let ?p1 = "p\<lparr>queue := queue p @ [(submitted p, ReturnsPromise)],
               submitted := submitted p + 1\<rparr>"
  from assms(1) have inv1: "pool_inv ?p1" by (rule pool_inv_enqueue)
  from assms(2) have "pool_async ?p1" unfolding pool_async_def by auto
  from process_async [OF this inv1]
  have none: "fst (PromisePool_process ?p1) = None"
    and async: "pool_async (snd (PromisePool_process ?p1))" by simp_all
  from none have "pool_idle (snd (PromisePool_process ?p1))" by (rule process_idle)
  with none async process_fields [of ?p1] show ?thesis by (simp add: add_unfold Let_def)
qed

lemma settled_async:
  assumes "pool_inv p" and "pool_async p" and "pool_idle p"
  shows "pool_async (PromisePool_settled i out p) \<and> pool_idle (PromisePool_settled i out p)"
proof (cases "i \<in> set (active p)")
  case False
  with assms show ?thesis by (simp add: settled_ignored)
next
  case True
  let ?p2 = "p\<lparr>handles := settle i out (handles p), active := removeAll i (active p),
               running := running p - 1\<rparr>"
  from assms(1) True have inv2: "pool_inv ?p2" by (rule pool_inv_release)
  from assms(1) have d: "distinct (active p)" and sub: "set (active p) \<subseteq> set (started p)"
    by (simp_all add: pool_inv_def)
  from d True have len: "int (length (removeAll i (active p))) = int (length (active p)) - 1"
    by (rule length_removeAll_distinct)
  from True sub have "insert i (set (started p) - set (active p)) =
      set (started p) - set (removeAll i (active p))" by auto
  with assms(2) len have "pool_async ?p2"
    unfolding pool_async_def by (simp add: settle_ids)
  from process_async [OF this inv2]
  have none: "fst (PromisePool_process ?p2) = None"
    and async: "pool_async (snd (PromisePool_process ?p2))" by simp_all
  from none have "pool_idle (snd (PromisePool_process ?p2))" by (rule process_idle)
  with none async True show ?thesis by (simp add: settled_unfold Let_def)
qed

lemma promises_only_Cons:
  "promises_only (ev # evs) \<longleftrightarrow>
     (case ev of Add (ThrowsSync e) \<Rightarrow> False | _ \<Rightarrow> True) \<and> promises_only evs"
  by (simp add: promises_only_def)

lemma run_async:
  "promises_only evs \<Longrightarrow> pool_inv p \<Longrightarrow> pool_async p \<Longrightarrow> pool_idle p \<Longrightarrow>
   pool_async (pool_run p evs) \<and> pool_idle (pool_run p evs)"
proof (induction evs arbitrary: p)
  case Nil
  then show ?case by simp
next
  case (Cons ev evs)
  from Cons.prems(1) have rest: "promises_only evs" by (simp add: promises_only_Cons)
  from Cons.prems(2) have inv': "pool_inv (pool_step p ev)" by (rule step_inv)
  have "pool_async (pool_step p ev) \<and> pool_idle (pool_step p ev)"
  proof (cases ev)
    case (Add t)
    with Cons.prems(1) have "t = ReturnsPromise"
      by (cases t) (simp_all add: promises_only_Cons)
    with Add add_async [OF Cons.prems(2,3)] show ?thesis by simp
  next
    case (Settled i out)
    with settled_async [OF Cons.prems(2,3,4)] show ?thesis by simp
  qed
  with Cons.IH [OF rest inv'] show ?case by simp
qed

lemma new_async: "pool_async (PromisePool_new c) \<and> pool_idle (PromisePool_new c)"
  by (simp add: pool_async_def pool_idle_def PromisePool_new_def)

lemma upt_split_two:
  assumes "a < b" and "b < k"
  shows "[0..<k] = [0..<a] @ a # [Suc a..<b] @ b # [Suc b..<k]"
proof -
  from assms have "[0..<k] = [0..<a] @ [a..<k]"
    by (metis le_add_diff_inverse less_imp_le_nat less_trans upt_add_eq_append zero_le)
  also from assms have "[a..<k] = a # [Suc a..<k]" by (simp add: upt_conv_Cons)
  also from assms have "[Suc a..<k] = [Suc a..<b] @ [b..<k]"
    by (metis Suc_leI le_add_diff_inverse less_imp_le_nat upt_add_eq_append)
  also from assms have "[b..<k] = b # [Suc b..<k]" by (simp add: upt_conv_Cons)
  finally show ?thesis .
qed

text \<open>
  C1. For a pool created with a concurrency \<open>c \<ge> 1\<close> and every sequence of calls of
  \<^verbatim>\<open>add\<close> and settlements of tasks, \<^verbatim>\<open>running\<close> never exceeds \<open>c\<close>, and neither does the
  number of tasks started and not yet settled.
\<close>

theorem pool_running_bounded:
  assumes "1 \<le> c"
  shows "running (pool_run (PromisePool_new c) evs) \<le> c \<and>
         int (length (active (pool_run (PromisePool_new c) evs))) \<le> c"
proof -
  from assms have "running (PromisePool_new c) \<le> concurrency (PromisePool_new c)"
    by (simp add: PromisePool_new_def)
  from run_bound [OF this, of evs]
  have r: "running (pool_run (PromisePool_new c) evs) \<le> c" by (simp add: PromisePool_new_def)
  have "pool_inv (pool_run (PromisePool_new c) evs)" by (simp add: run_inv new_inv)
  then have "int (length (active (pool_run (PromisePool_new c) evs))) \<le>
             running (pool_run (PromisePool_new c) evs)" by (simp add: pool_inv_def)
  with r show ?thesis by simp
qed

theorem pool_running_bounded_witness:
  "(1::int) \<le> 2 \<and>
   running (pool_run (PromisePool_new 2)
     [Add ReturnsPromise, Add ReturnsPromise, Add ReturnsPromise, Settled 1 (Fulfilled 5),
      Add ReturnsPromise :: (nat, nat) pool_event]) = 2 \<and>
   active (pool_run (PromisePool_new 2)
     [Add ReturnsPromise, Add ReturnsPromise, Add ReturnsPromise, Settled 1 (Fulfilled 5),
      Add ReturnsPromise :: (nat, nat) pool_event]) = [0, 2]"
proof -
  let ?evs = "[Add ReturnsPromise, Add ReturnsPromise, Add ReturnsPromise, Settled 1 (Fulfilled 5),
               Add ReturnsPromise :: (nat, nat) pool_event]"
  have one: "(1::int) \<le> 2" by simp
  have run: "running (pool_run (PromisePool_new 2) ?evs) = 2 \<and>
             active (pool_run (PromisePool_new 2) ?evs) = [0, 2]"
    by code_simp
  from pool_running_bounded [OF one, of ?evs] one run show ?thesis by simp
qed

text \<open>
  C8. In every state of a pool the tasks started so far are the first ones submitted, in
  the order of submission, and the tasks waiting are the following ones, in order: for
  tasks \<open>a\<close> added before \<open>b\<close>, whenever \<open>b\<close> has been started, \<open>a\<close> was started before it.
\<close>

theorem pool_starts_in_submission_order:
  assumes "p = pool_run (PromisePool_new c) evs"
  shows "started p @ map fst (queue p) = [0..<submitted p] \<and>
         (\<forall>a b. a < b \<and> b \<in> set (started p) \<longrightarrow>
                (\<exists>xs ys zs. started p = xs @ a # ys @ b # zs))"
proof -
  from assms have "pool_inv p" by (simp add: run_inv new_inv)
  then have fifo: "started p @ map fst (queue p) = [0..<submitted p]" by (simp add: pool_inv_def)
  then have st: "started p = [0..<length (started p)]" by (rule upt_prefix)
  have "\<exists>xs ys zs. started p = xs @ a # ys @ b # zs" if "a < b" and "b \<in> set (started p)" for a b
  proof -
    from that(2) st have "b < length (started p)" by (metis atLeastLessThan_iff set_upt)
    with that(1) have "[0..<length (started p)] =
        [0..<a] @ a # [Suc a..<b] @ b # [Suc b..<length (started p)]" by (rule upt_split_two)
    with st show ?thesis by metis
  qed
  with fifo show ?thesis by blast
qed

theorem pool_starts_in_submission_order_witness:
  "started (pool_run (PromisePool_new 1)
     [Add ReturnsPromise, Add ReturnsPromise, Add ReturnsPromise, Settled 0 (Rejected 4),
      Settled 1 (Fulfilled 5) :: (nat, nat) pool_event]) = [0, 1, 2] \<and>
   (1::nat) < 2 \<and> 2 \<in> set (started (pool_run (PromisePool_new 1)
     [Add ReturnsPromise, Add ReturnsPromise, Add ReturnsPromise, Settled 0 (Rejected 4),
      Settled 1 (Fulfilled 5) :: (nat, nat) pool_event])) \<and>
   (\<exists>xs ys zs. started (pool_run (PromisePool_new 1)
     [Add ReturnsPromise, Add ReturnsPromise, Add ReturnsPromise, Settled 0 (Rejected 4),
      Settled 1 (Fulfilled 5) :: (nat, nat) pool_event]) = xs @ 1 # ys @ 2 # zs)"
proof -
  let ?evs = "[Add ReturnsPromise, Add ReturnsPromise, Add ReturnsPromise, Settled 0 (Rejected 4),
               Settled 1 (Fulfilled 5) :: (nat, nat) pool_event]"
  have run: "started (pool_run (PromisePool_new 1) ?evs) = [0, 1, 2]" by code_simp
  then have mem: "(1::nat) < 2 \<and> 2 \<in> set (started (pool_run (PromisePool_new 1) ?evs))"
    by simp
  with pool_starts_in_submission_order [OF refl, of 1 ?evs]
  have "\<exists>xs ys zs. started (pool_run (PromisePool_new 1) ?evs) = xs @ 1 # ys @ 2 # zs"
    by blast
  with run mem show ?thesis by blast
qed

section \<open>Submitted tasks and \<^verbatim>\<open>clear\<close>\<close>

lemma settled_async_handles:
  assumes "pool_inv p" and "pool_async p" and "i \<in> set (active p)"
  shows "handles (PromisePool_settled i out p) = handles p @ [(i, out)]"
proof -
  let ?p2 = "p\<lparr>handles := settle i out (handles p), active := removeAll i (active p),
               running := running p - 1\<rparr>"
  from assms(2,3) have fresh: "i \<notin> fst ` set (handles p)" by (simp add: pool_async_def)
  from assms(1,3) have inv2: "pool_inv ?p2" by (rule pool_inv_release)
  from assms(1) have d: "distinct (active p)" and sub: "set (active p) \<subseteq> set (started p)"
    by (simp_all add: pool_inv_def)
  from d assms(3) have len: "int (length (removeAll i (active p))) = int (length (active p)) - 1"
    by (rule length_removeAll_distinct)
  from assms(3) sub have "insert i (set (started p) - set (active p)) =
      set (started p) - set (removeAll i (active p))" by auto
  with assms(2) len have "pool_async ?p2"
    unfolding pool_async_def by (simp add: settle_ids)
  from process_async [OF this inv2] have "fst (PromisePool_process ?p2) = None" by simp
  with assms(3) process_fields [of ?p2] fresh show ?thesis
    by (simp add: settled_unfold Let_def settle_fresh)
qed

lemma pool_quiescent:
  assumes "pool_inv p" and "pool_async p" and "pool_idle p" and "1 \<le> concurrency p"
    and "active p = []"
  shows "queue p = [] \<and> fst ` set (handles p) = {0..<submitted p}"
proof -
  from assms(2,5) have "running p = 0" by (simp add: pool_async_def)
  with assms(3,4) have q: "queue p = []" by (simp add: pool_idle_def)
  with assms(1) have "started p = [0..<submitted p]" by (simp add: pool_inv_def)
  with assms(2,5) have "fst ` set (handles p) = {0..<submitted p}" by (simp add: pool_async_def)
  with q show ?thesis by simp
qed

lemma queue_quiescent:
  assumes "queue_inv q" and "tasks q = [] \<or> processing q" and "q_executing q = []"
  shows "tasks q = [] \<and> fst ` set (q_handles q) = set (q_started q)"
proof -
  from assms(1,3) have "\<not> processing q" by (simp add: queue_inv_def)
  with assms(2) have "tasks q = []" by simp
  moreover from assms(1,3) have "map fst (q_handles q) = q_started q" by (simp add: queue_inv_def)
  then have "fst ` set (q_handles q) = set (q_started q)" by (metis set_map)
  ultimately show ?thesis by simp
qed

lemma queue_cleared_gone:
  assumes "queue_inv q" and "i \<in> fst ` set (tasks q)"
  shows "queue_gone i (AsyncQueue_clear q)"
proof -
  from assms have "i < q_submitted q" and "i \<notin> set (q_started q)"
    by (auto simp: queue_inv_def)
  then show ?thesis by (simp add: queue_gone_def AsyncQueue_clear_def)
qed

lemma queue_gone_never_settles:
  assumes "queue_inv q" and "queue_gone i q"
  shows "i \<notin> set (q_started q) \<and> i \<notin> fst ` set (q_handles q)"
proof -
  from assms(2) have ns: "i \<notin> set (q_started q)" by (simp add: queue_gone_def)
  from assms(1) have "set (map fst (q_handles q)) \<subseteq> set (q_started q)"
    unfolding queue_inv_def by (metis set_append Un_upper1)
  with ns show ?thesis by auto
qed

text \<open>
  C9, as the code has it. In the pool a submitted task leaves the waiting queue only by
  being started. When the ceiling is at least 1 and the tasks return promises, the pool is
  never idle while a task waits: whenever no task is in flight, every submitted task
  has run and its handle has settled, and each settlement of a task in flight settles
  its handle. In the serial queue the same holds as long as \<^verbatim>\<open>clear\<close> is not called.
  \<^verbatim>\<open>clear\<close> empties the waiting queue, and a task that waited then is never started and
  its handle never settles, whatever happens later.
\<close>

theorem submitted_tasks_not_rescinded:
  assumes "p = pool_run (PromisePool_new c) evs" and "q = queue_run AsyncQueue_new qevs"
  shows "started p @ map fst (queue p) = [0..<submitted p] \<and>
         (1 \<le> c \<and> promises_only evs \<longrightarrow>
            (active p = [] \<longrightarrow> queue p = [] \<and> fst ` set (handles p) = {0..<submitted p}) \<and>
            (\<forall>i out. i \<in> set (active p) \<longrightarrow>
               handles (PromisePool_settled i out p) = handles p @ [(i, out)])) \<and>
         (QClear \<notin> set qevs \<longrightarrow>
            q_started q @ map fst (tasks q) = [0..<q_submitted q] \<and>
            (q_executing q = [] \<longrightarrow>
               tasks q = [] \<and> fst ` set (q_handles q) = {0..<q_submitted q})) \<and>
         (\<forall>i later. i \<in> fst ` set (tasks q) \<longrightarrow>
            tasks (AsyncQueue_clear q) = [] \<and>
            i \<notin> set (q_started (queue_run (AsyncQueue_clear q) later)) \<and>
            i \<notin> fst ` set (q_handles (queue_run (AsyncQueue_clear q) later)))"
proof (intro conjI impI allI)
  from assms(1) have inv: "pool_inv p" by (simp add: run_inv new_inv)
  then show "started p @ map fst (queue p) = [0..<submitted p]" by (simp add: pool_inv_def)
  {
    assume h: "1 \<le> c \<and> promises_only evs"
    with assms(1) have as: "pool_async p" and idle: "pool_idle p"
      using run_async [of evs "PromisePool_new c"] by (simp_all add: new_inv new_async)
    from assms(1) have conc: "concurrency p = c"
      using run_bound [of "PromisePool_new c" evs] h by (simp add: PromisePool_new_def)
    {
      assume "active p = []"
      with inv as idle conc h show "queue p = []" and "fst ` set (handles p) = {0..<submitted p}"
        using pool_quiescent [of p] by simp_all
    }
    {
      fix i out assume "i \<in> set (active p)"
      with inv as show "handles (PromisePool_settled i out p) = handles p @ [(i, out)]"
        by (rule settled_async_handles)
    }
  }
  from assms(2) have qinv: "queue_inv q" by (simp add: queue_run_inv queue_new_inv)
  {
    assume nc: "QClear \<notin> set qevs"
    have "queue_fifo AsyncQueue_new" by (simp add: queue_fifo_def AsyncQueue_new_def)
    with nc assms(2) show fifo: "q_started q @ map fst (tasks q) = [0..<q_submitted q]"
      using queue_run_fifo [of qevs AsyncQueue_new] by (simp add: queue_fifo_def)
    {
      assume ex: "q_executing q = []"
      from assms(2) have "tasks q = [] \<or> processing q"
        using queue_run_idle [of AsyncQueue_new qevs] by (simp add: AsyncQueue_new_def)
      from queue_quiescent [OF qinv this ex]
      show "tasks q = []" and "fst ` set (q_handles q) = {0..<q_submitted q}"
        using fifo by auto
    }
  }
  {
    fix i later assume i: "i \<in> fst ` set (tasks q)"
    show "tasks (AsyncQueue_clear q) = []" by (simp add: AsyncQueue_clear_def)
    from qinv i have "queue_gone i (AsyncQueue_clear q)" by (rule queue_cleared_gone)
    then have gone: "queue_gone i (queue_run (AsyncQueue_clear q) later)" by (rule queue_run_gone)
    from qinv have "queue_inv (queue_run (AsyncQueue_clear q) later)"
      by (simp add: queue_run_inv queue_clear_inv)
    from queue_gone_never_settles [OF this gone]
    show "i \<notin> set (q_started (queue_run (AsyncQueue_clear q) later))"
      and "i \<notin> fst ` set (q_handles (queue_run (AsyncQueue_clear q) later))" by simp_all
  }
qed

theorem submitted_tasks_not_rescinded_witness:
  "(1::int) \<le> 1 \<and>
   promises_only [Add ReturnsPromise, Add ReturnsPromise, Settled 0 (Fulfilled 1),
                  Settled 1 (Rejected 2) :: (nat, nat) pool_event] \<and>
   active (pool_run (PromisePool_new 1)
     [Add ReturnsPromise, Add ReturnsPromise, Settled 0 (Fulfilled 1),
      Settled 1 (Rejected 2) :: (nat, nat) pool_event]) = [] \<and>
   handles (pool_run (PromisePool_new 1)
     [Add ReturnsPromise, Add ReturnsPromise, Settled 0 (Fulfilled 1),
      Settled 1 (Rejected 2) :: (nat, nat) pool_event]) = [(0, Fulfilled 1), (1, Rejected 2)] \<and>
   QClear \<notin> set [QAdd ReturnsPromise, QAdd ReturnsPromise :: (nat, nat) queue_event] \<and>
   q_started (queue_run AsyncQueue_new
     [QAdd ReturnsPromise, QAdd ReturnsPromise :: (nat, nat) queue_event]) = [0] \<and>
   map fst (tasks (queue_run AsyncQueue_new
     [QAdd ReturnsPromise, QAdd ReturnsPromise :: (nat, nat) queue_event])) = [1] \<and>
   1 \<notin> set (q_started (queue_run (AsyncQueue_clear (queue_run AsyncQueue_new
     [QAdd ReturnsPromise, QAdd ReturnsPromise :: (nat, nat) queue_event]))
     [QSettled 0 (Fulfilled 1), QAdd ReturnsPromise]))"
proof -
  let ?evs = "[Add ReturnsPromise, Add ReturnsPromise, Settled 0 (Fulfilled 1),
               Settled 1 (Rejected 2) :: (nat, nat) pool_event]"
  let ?qevs = "[QAdd ReturnsPromise, QAdd ReturnsPromise :: (nat, nat) queue_event]"
  have pre: "(1::int) \<le> 1 \<and> promises_only ?evs \<and> QClear \<notin> set ?qevs"
    by (simp add: promises_only_def)
  have run: "active (pool_run (PromisePool_new 1) ?evs) = [] \<and>
             handles (pool_run (PromisePool_new 1) ?evs) = [(0, Fulfilled 1), (1, Rejected 2)] \<and>
             q_started (queue_run AsyncQueue_new ?qevs) = [0] \<and>
             map fst (tasks (queue_run AsyncQueue_new ?qevs)) = [1]"
    by code_simp
  then have "1 \<in> fst ` set (tasks (queue_run AsyncQueue_new ?qevs))"
    by (metis list.set_intros(1) set_map)
  with submitted_tasks_not_rescinded [OF refl refl, of 1 ?evs ?qevs]
  have "1 \<notin> set (q_started (queue_run (AsyncQueue_clear (queue_run AsyncQueue_new ?qevs))
                 [QSettled 0 (Fulfilled 1), QAdd ReturnsPromise]))"
    by blast
  with pre run show ?thesis by simp
qed

text \<open>
  C9 as stated fails: after two tasks are added and \<^verbatim>\<open>clear\<close> is called while the first
  one runs, the second task is no longer waiting, and when the first has settled the
  queue is at rest although the second task was never started and its handle is not
  settled.
\<close>

theorem submitted_tasks_not_rescinded_counterexample:
  "tasks (queue_run AsyncQueue_new
     [QAdd ReturnsPromise, QAdd ReturnsPromise, QClear,
      QSettled 0 (Fulfilled 1) :: (nat, nat) queue_event]) = [] \<and>
   q_submitted (queue_run AsyncQueue_new
     [QAdd ReturnsPromise, QAdd ReturnsPromise, QClear,
      QSettled 0 (Fulfilled 1) :: (nat, nat) queue_event]) = 2 \<and>
   q_started (queue_run AsyncQueue_new
     [QAdd ReturnsPromise, QAdd ReturnsPromise, QClear,
      QSettled 0 (Fulfilled 1) :: (nat, nat) queue_event]) = [0] \<and>
   q_executing (queue_run AsyncQueue_new
     [QAdd ReturnsPromise, QAdd ReturnsPromise, QClear,
      QSettled 0 (Fulfilled 1) :: (nat, nat) queue_event]) = [] \<and>
   q_handles (queue_run AsyncQueue_new
     [QAdd ReturnsPromise, QAdd ReturnsPromise, QClear,
      QSettled 0 (Fulfilled 1) :: (nat, nat) queue_event]) = [(0, Fulfilled 1)]"
  by code_simp

section \<open>\<^verbatim>\<open>PromisePool.execute\<close>\<close>

lemma run_append: "pool_run p (xs @ ys) = pool_run (pool_run p xs) ys"
  by (induction xs arbitrary: p) simp_all

lemma execute_as_run: "PromisePool_execute ts c = pool_run (PromisePool_new c) (map Add ts)"
proof -
  have "foldl (\<lambda>p t. PromisePool_add t p) p ts = pool_run p (map Add ts)" for p :: "('a, 'b) PromisePool"
    by (induction ts arbitrary: p) simp_all
  then show ?thesis by (simp add: PromisePool_execute_def)
qed

lemma step_submitted:
  "submitted (pool_step p ev) = (case ev of Add t \<Rightarrow> Suc (submitted p) | _ \<Rightarrow> submitted p)"
proof (cases ev)
  case (Add t)
  then show ?thesis
    using process_fields
            [of "p\<lparr>queue := queue p @ [(submitted p, t)], submitted := submitted p + 1\<rparr>"]
    by (simp add: add_unfold Let_def split: option.splits)
next
  case (Settled i out)
  then show ?thesis
    using process_fields
            [of "p\<lparr>handles := settle i out (handles p), active := removeAll i (active p),
                   running := running p - 1\<rparr>"]
    by (cases "i \<in> set (active p)")
       (simp_all add: settled_unfold settled_ignored Let_def split: option.splits)
qed

lemma add_submitted: "submitted (PromisePool_add t p) = Suc (submitted p)"
  using step_submitted [of p "Add t"] by simp

lemma settled_submitted: "submitted (PromisePool_settled i out p) = submitted p"
  using step_submitted [of p "Settled i out"] by simp

lemma run_adds_submitted: "submitted (pool_run p (map Add ts)) = submitted p + length ts"
  by (induction ts arbitrary: p) (simp_all add: add_submitted)

lemma run_settlements_submitted:
  "settlements_only evs \<Longrightarrow> submitted (pool_run p evs) = submitted p"
proof (induction evs arbitrary: p)
  case Nil
  then show ?case by simp
next
  case (Cons ev evs)
  then show ?case
    by (cases ev) (simp_all add: settlements_only_def settled_submitted)
qed

lemma settle_extends: "\<exists>ext. settle i out hs = hs @ ext"
  by (simp add: settle_def)

lemma step_handles_extend: "\<exists>ext. handles (pool_step p ev) = handles p @ ext"
proof (cases ev)
  case (Add t)
  then show ?thesis
    using process_fields
            [of "p\<lparr>queue := queue p @ [(submitted p, t)], submitted := submitted p + 1\<rparr>"]
    by (simp add: add_unfold Let_def settle_extends split: option.splits)
next
  case (Settled i out)
  then show ?thesis
    using process_fields
            [of "p\<lparr>handles := settle i out (handles p), active := removeAll i (active p),
                   running := running p - 1\<rparr>"]
    by (cases "i \<in> set (active p)")
       (simp_all add: settled_unfold settled_ignored Let_def settle_extends split: option.splits)
qed

lemma run_handles_extend: "\<exists>ext. handles (pool_run p evs) = handles p @ ext"
proof (induction evs arbitrary: p)
  case Nil
  then show ?case by simp
next
  case (Cons ev evs)
  from step_handles_extend obtain m1 where "handles (pool_step p ev) = handles p @ m1" by blast
  moreover from Cons.IH obtain m2
    where "handles (pool_run (pool_step p ev) evs) = handles (pool_step p ev) @ m2" by blast
  ultimately show ?case by simp
qed

lemma own_handles:
  "pool_inv p \<Longrightarrow> submitted p = n \<Longrightarrow> filter (\<lambda>(i, out). i < n) (handles p) = handles p"
  by (auto simp: pool_inv_def filter_id_conv)

lemma first_rejection_append:
  "first_rejection hs = Some e \<Longrightarrow> first_rejection (hs @ ext) = Some e"
  by (induction hs rule: first_rejection.induct) simp_all

lemma first_rejection_split:
  "first_rejection hs = Some e \<Longrightarrow>
   \<exists>hs1 i hs2. hs = hs1 @ (i, Rejected e) # hs2 \<and> first_rejection hs1 = None"
proof (induction hs rule: first_rejection.induct)
  case 1
  then show ?case by simp
next
  case (2 i e' hs)
  then have "(i, Rejected e') # hs = [] @ (i, Rejected e) # hs \<and> first_rejection [] = None"
    by simp
  then show ?case by blast
next
  case (3 i v hs)
  then obtain hs1 j hs2 where "hs = hs1 @ (j, Rejected e) # hs2" "first_rejection hs1 = None"
    by auto
  then have "(i, Fulfilled v) # hs = ((i, Fulfilled v) # hs1) @ (j, Rejected e) # hs2 \<and>
             first_rejection ((i, Fulfilled v) # hs1) = None" by simp
  then show ?case by blast
qed

lemma first_rejection_none:
  "first_rejection hs = None \<Longrightarrow> (i, out) \<in> set hs \<Longrightarrow> \<exists>v. out = Fulfilled v"
  by (induction hs rule: first_rejection.induct) auto

lemma fulfilled_value_Some:
  "fulfilled_value hs i \<noteq> None \<Longrightarrow>
   \<exists>v. map_of hs i = Some (Fulfilled v) \<and> the (fulfilled_value hs i) = v"
  by (auto simp: fulfilled_value_def split: option.splits outcome.splits)

lemma fulfilled_value_present:
  assumes "first_rejection hs = None" and "i \<in> fst ` set hs"
  shows "fulfilled_value hs i \<noteq> None"
proof -
  from assms(2) obtain out where "map_of hs i = Some out"
    by (metis map_of_eq_None_iff not_Some_eq)
  moreover from this have "(i, out) \<in> set hs" by (rule map_of_SomeD)
  with assms(1) obtain v where "out = Fulfilled v" using first_rejection_none by blast
  ultimately show ?thesis by (simp add: fulfilled_value_def)
qed

lemma Promise_all_cases:
  "Promise_all n hs =
     (case first_rejection (filter (\<lambda>(i, out). i < n) hs) of
        Some e \<Rightarrow> Some (Rejected e)
      | None \<Rightarrow>
          if \<forall>i < n. fulfilled_value (filter (\<lambda>(i, out). i < n) hs) i \<noteq> None
          then Some (Fulfilled (map (\<lambda>i. the (fulfilled_value (filter (\<lambda>(i, out). i < n) hs) i))
                                  [0..<n]))
          else None)"
  by (auto simp: Promise_all_def Let_def list_all_iff split: option.splits)

lemma Promise_all_own:
  assumes "pool_inv p" and "submitted p = n"
  shows "Promise_all n (handles p) =
     (case first_rejection (handles p) of
        Some e \<Rightarrow> Some (Rejected e)
      | None \<Rightarrow>
          if \<forall>i < n. fulfilled_value (handles p) i \<noteq> None
          then Some (Fulfilled (map (\<lambda>i. the (fulfilled_value (handles p) i)) [0..<n]))
          else None)"
  by (simp only: Promise_all_cases own_handles [OF assms])

lemma Promise_all_fulfilled:
  assumes "pool_inv p" and "submitted p = n"
    and "Promise_all n (handles p) = Some (Fulfilled vs)"
  shows "length vs = n \<and> (\<forall>i < n. map_of (handles p) i = Some (Fulfilled (vs ! i))) \<and>
         first_rejection (handles p) = None \<and> fst ` set (handles p) = {0..<n}"
proof -
  from assms(3) have none: "first_rejection (handles p) = None"
    and all: "\<forall>i < n. fulfilled_value (handles p) i \<noteq> None"
    and vs: "vs = map (\<lambda>i. the (fulfilled_value (handles p) i)) [0..<n]"
    by (auto simp: Promise_all_own [OF assms(1,2)] split: option.splits if_splits)
  have "map_of (handles p) i = Some (Fulfilled (vs ! i))" if "i < n" for i
    using that all vs fulfilled_value_Some [of "handles p" i] by auto
  moreover have "fst ` set (handles p) = {0..<n}"
  proof
    from assms(1,2) show "fst ` set (handles p) \<subseteq> {0..<n}" by (auto simp: pool_inv_def)
    show "{0..<n} \<subseteq> fst ` set (handles p)"
    proof
      fix i assume "i \<in> {0..<n}"
      with all have "map_of (handles p) i \<noteq> None"
        using fulfilled_value_Some [of "handles p" i] by auto
      then show "i \<in> fst ` set (handles p)" by (simp add: map_of_eq_None_iff)
    qed
  qed
  ultimately show ?thesis using none vs by simp
qed

lemma Promise_all_rejected:
  assumes "pool_inv p" and "submitted p = n"
    and "Promise_all n (handles p) = Some (Rejected e)"
  shows "first_rejection (handles p) = Some e"
  using assms(3) by (auto simp: Promise_all_own [OF assms(1,2)] split: option.splits if_splits)

lemma handles_complete_stay:
  assumes "pool_inv p'" and "submitted p' = n" and "handles p' = hs @ ext"
    and "fst ` set hs = {0..<n}"
  shows "ext = []"
proof (rule ccontr)
  assume "ext \<noteq> []"
  then obtain i out where io: "(i, out) \<in> set ext" by (cases ext) auto
  with assms(1,2,3) have "i < n" by (force simp: pool_inv_def)
  with assms(4) have "i \<in> fst ` set hs" by simp
  moreover from io have "i \<in> fst ` set ext" by force
  moreover from assms(1,3) have "distinct (map fst hs @ map fst ext)" by (simp add: pool_inv_def)
  ultimately show False by auto
qed

lemma first_rejection_snoc:
  "first_rejection (hs @ [(i, Rejected e)]) =
     Some (case first_rejection hs of None \<Rightarrow> e | Some e0 \<Rightarrow> e0)"
  by (induction hs rule: first_rejection.induct) simp_all

lemma step_async_handles:
  assumes "pool_inv p" and "pool_async p" and "promises_only [ev]"
    and "(i, out) \<in> set (handles (pool_step p ev))"
  shows "(i, out) \<in> set (handles p) \<or> ev = Settled i out"
proof (cases ev)
  case (Add t)
  with assms(3) have "t = ReturnsPromise" by (cases t) (simp_all add: promises_only_def)
  with Add assms(4) add_async [OF assms(1,2)] show ?thesis by simp
next
  case (Settled j out')
  show ?thesis
  proof (cases "j \<in> set (active p)")
    case True
    from settled_async_handles [OF assms(1,2) True, of out'] Settled assms(4)
    show ?thesis by auto
  next
    case False
    with Settled assms(4) show ?thesis by (simp add: settled_ignored)
  qed
qed

lemma run_async_handles:
  "promises_only evs \<Longrightarrow> pool_inv p \<Longrightarrow> pool_async p \<Longrightarrow> pool_idle p \<Longrightarrow>
   (i, out) \<in> set (handles (pool_run p evs)) \<Longrightarrow>
   (i, out) \<in> set (handles p) \<or> Settled i out \<in> set evs"
proof (induction evs arbitrary: p)
  case Nil
  then show ?case by simp
next
  case (Cons ev evs)
  from Cons.prems(1) have one: "promises_only [ev]" and rest: "promises_only evs"
    by (simp_all add: promises_only_def)
  from Cons.prems(2) have inv': "pool_inv (pool_step p ev)" by (rule step_inv)
  from run_async [OF one Cons.prems(2,3,4)]
  have as': "pool_async (pool_step p ev)" and idle': "pool_idle (pool_step p ev)" by simp_all
  from Cons.prems(5) have "(i, out) \<in> set (handles (pool_run (pool_step p ev) evs))" by simp
  from Cons.IH [OF rest inv' as' idle' this]
  have "(i, out) \<in> set (handles (pool_step p ev)) \<or> Settled i out \<in> set evs" .
  then show ?case
  proof
    assume "(i, out) \<in> set (handles (pool_step p ev))"
    from step_async_handles [OF Cons.prems(2,3) one this] show ?thesis by auto
  next
    assume "Settled i out \<in> set evs"
    then show ?thesis by simp
  qed
qed

text \<open>
  A task that throws on the spot is left out of the statement below. When such a task is
  started from a \<^verbatim>\<open>finally\<close> callback, the exception rejects no handle and the slot is
  never given back: with three tasks, the second one throwing, and a ceiling of 1, after
  the first task has settled the result stays pending and the third task waits for good.
\<close>

lemma execute_throwing_task_stuck:
  "handles (pool_run (PromisePool_execute [ReturnsPromise, ThrowsSync 9, ReturnsPromise] 1)
     [Settled 0 (Fulfilled 1) :: (nat, nat) pool_event]) = [(0, Fulfilled 1)] \<and>
   active (pool_run (PromisePool_execute [ReturnsPromise, ThrowsSync 9, ReturnsPromise] 1)
     [Settled 0 (Fulfilled 1) :: (nat, nat) pool_event]) = [] \<and>
   running (pool_run (PromisePool_execute [ReturnsPromise, ThrowsSync 9, ReturnsPromise] 1)
     [Settled 0 (Fulfilled 1) :: (nat, nat) pool_event]) = 1 \<and>
   map fst (queue (pool_run (PromisePool_execute [ReturnsPromise, ThrowsSync 9, ReturnsPromise] 1)
     [Settled 0 (Fulfilled 1) :: (nat, nat) pool_event])) = [2] \<and>
   unhandled (pool_run (PromisePool_execute [ReturnsPromise, ThrowsSync 9, ReturnsPromise] 1)
     [Settled 0 (Fulfilled 1) :: (nat, nat) pool_event]) = [9] \<and>
   Promise_all 3 (handles
     (pool_run (PromisePool_execute [ReturnsPromise, ThrowsSync 9, ReturnsPromise] 1)
       [Settled 0 (Fulfilled 1) :: (nat, nat) pool_event])) = None"
  by code_simp

text \<open>
  C3, as the code has it. \<^verbatim>\<open>execute(tasks, concurrency)\<close> is \<^verbatim>\<open>Promise.all\<close> over the
  handles of its tasks, in a pool of its own. For every list of tasks, in every state
  after the tasks were added: when the result is fulfilled, every handle has fulfilled
  and the result lists their values in the order of the tasks; when it is rejected, it is
  rejected with the first rejection among the handles, in the order in which they
  settled; once settled, the result stays as it is whatever settles later; and when
  every handle has settled and none was rejected, the result is fulfilled.

  For tasks that return promises and a ceiling of at least 1, moreover: when the promise
  of a task in flight is rejected, the handle of that task is rejected in the same step
  and from that step on the result is rejected, with this error when no handle was
  rejected before and with the error of the first rejected handle otherwise, without
  waiting for the handles still pending; a handle settles only with the outcome of its
  own task; and the pool goes on after a failure: whenever no task is in flight every
  task has run and every handle has settled.
\<close>

theorem executeAll_outcome:
  assumes "p = pool_run (PromisePool_execute ts c) evs" and "settlements_only evs"
    and "n = length ts"
  shows "(\<forall>vs. Promise_all n (handles p) = Some (Fulfilled vs) \<longrightarrow>
            length vs = n \<and> (\<forall>i < n. map_of (handles p) i = Some (Fulfilled (vs ! i)))) \<and>
         (\<forall>e. Promise_all n (handles p) = Some (Rejected e) \<longrightarrow>
            (\<exists>hs1 i hs2. handles p = hs1 @ (i, Rejected e) # hs2 \<and> first_rejection hs1 = None)) \<and>
         (\<forall>e. first_rejection (handles p) = Some e \<longrightarrow>
            Promise_all n (handles p) = Some (Rejected e)) \<and>
         (\<forall>r later. settlements_only later \<and> Promise_all n (handles p) = Some r \<longrightarrow>
            Promise_all n (handles (pool_run p later)) = Some r) \<and>
         (1 \<le> c \<and> (\<forall>t \<in> set ts. t = ReturnsPromise) \<longrightarrow>
            (active p = [] \<longrightarrow> queue p = [] \<and> fst ` set (handles p) = {0..<n}) \<and>
            (\<forall>i out. i \<in> set (active p) \<longrightarrow>
               handles (PromisePool_settled i out p) = handles p @ [(i, out)]) \<and>
            (\<forall>i e. i \<in> set (active p) \<longrightarrow>
               Promise_all n (handles (PromisePool_settled i (Rejected e) p)) =
                 Some (Rejected (case first_rejection (handles p) of
                                   None \<Rightarrow> e | Some e0 \<Rightarrow> e0))) \<and>
            (\<forall>i out. (i, out) \<in> set (handles p) \<longrightarrow> Settled i out \<in> set evs)) \<and>
         (fst ` set (handles p) = {0..<n} \<and> first_rejection (handles p) = None \<longrightarrow>
            (\<exists>vs. Promise_all n (handles p) = Some (Fulfilled vs)))"
proof -
  from assms(1) have run: "p = pool_run (PromisePool_new c) (map Add ts @ evs)"
    by (simp add: execute_as_run run_append)
  then have inv: "pool_inv p" by (simp add: run_inv new_inv)
  from assms have sub: "submitted p = n"
    by (simp add: execute_as_run run_settlements_submitted run_adds_submitted PromisePool_new_def)
  have fulfilled: "length vs = n \<and> (\<forall>i < n. map_of (handles p) i = Some (Fulfilled (vs ! i)))"
    if "Promise_all n (handles p) = Some (Fulfilled vs)" for vs
    using Promise_all_fulfilled [OF inv sub that] by simp
  have rejected: "\<exists>hs1 i hs2. handles p = hs1 @ (i, Rejected e) # hs2 \<and> first_rejection hs1 = None"
    if "Promise_all n (handles p) = Some (Rejected e)" for e
    using Promise_all_rejected [OF inv sub that] by (rule first_rejection_split)
  have stable: "Promise_all n (handles (pool_run p later)) = Some r"
    if "settlements_only later" and r: "Promise_all n (handles p) = Some r" for r later
  proof -
    let ?p' = "pool_run p later"
    from inv have inv': "pool_inv ?p'" by (rule run_inv)
    from that(1) sub have sub': "submitted ?p' = n" by (simp add: run_settlements_submitted)
    from run_handles_extend obtain ext where ext: "handles ?p' = handles p @ ext" by blast
    show ?thesis
    proof (cases r)
      case (Rejected e)
      with r have "first_rejection (handles p) = Some e"
        using Promise_all_rejected [OF inv sub] by simp
      then have "first_rejection (handles ?p') = Some e"
        by (simp add: ext first_rejection_append)
      with Rejected show ?thesis by (simp add: Promise_all_own [OF inv' sub'])
    next
      case (Fulfilled vs)
      with r have "fst ` set (handles p) = {0..<n}"
        using Promise_all_fulfilled [OF inv sub] by simp
      from handles_complete_stay [OF inv' sub' ext this] ext have "handles ?p' = handles p"
        by simp
      with r show ?thesis by (simp add: Promise_all_own [OF inv' sub'] Promise_all_own [OF inv sub])
    qed
  qed
  have live: "(active p = [] \<longrightarrow> queue p = [] \<and> fst ` set (handles p) = {0..<n}) \<and>
              (\<forall>i out. i \<in> set (active p) \<longrightarrow>
                 handles (PromisePool_settled i out p) = handles p @ [(i, out)]) \<and>
              (\<forall>i e. i \<in> set (active p) \<longrightarrow>
                 Promise_all n (handles (PromisePool_settled i (Rejected e) p)) =
                   Some (Rejected (case first_rejection (handles p) of
                                     None \<Rightarrow> e | Some e0 \<Rightarrow> e0))) \<and>
              (\<forall>i out. (i, out) \<in> set (handles p) \<longrightarrow> Settled i out \<in> set evs)"
    if "1 \<le> c \<and> (\<forall>t \<in> set ts. t = ReturnsPromise)"
  proof -
    from that assms(2) have po: "promises_only (map Add ts @ evs)"
      by (auto simp: promises_only_def settlements_only_def list_all_iff
            split: pool_event.splits task.splits)
    with run have as: "pool_async p" and idle: "pool_idle p"
      using run_async [of "map Add ts @ evs" "PromisePool_new c"]
      by (simp_all add: new_inv new_async)
    from run that have conc: "1 \<le> concurrency p"
      using run_bound [of "PromisePool_new c" "map Add ts @ evs"] by (simp add: PromisePool_new_def)
    from pool_quiescent [OF inv as idle conc] sub
    have quiet: "active p = [] \<longrightarrow> queue p = [] \<and> fst ` set (handles p) = {0..<n}" by simp
    have each: "handles (PromisePool_settled i out p) = handles p @ [(i, out)]"
      if "i \<in> set (active p)" for i out
      using inv as that by (rule settled_async_handles)
    have fails: "Promise_all n (handles (PromisePool_settled i (Rejected e) p)) =
                   Some (Rejected (case first_rejection (handles p) of
                                     None \<Rightarrow> e | Some e0 \<Rightarrow> e0))"
      if "i \<in> set (active p)" for i e
    proof -
      from inv have inv': "pool_inv (PromisePool_settled i (Rejected e) p)" by (rule settled_inv)
      from sub have sub': "submitted (PromisePool_settled i (Rejected e) p) = n"
        by (simp add: settled_submitted)
      have "Promise_all n (handles (PromisePool_settled i (Rejected e) p)) =
          (case first_rejection (handles (PromisePool_settled i (Rejected e) p)) of
             Some e \<Rightarrow> Some (Rejected e)
           | None \<Rightarrow>
               if \<forall>j < n. fulfilled_value (handles (PromisePool_settled i (Rejected e) p)) j \<noteq> None
               then Some (Fulfilled (map (\<lambda>j. the (fulfilled_value
                            (handles (PromisePool_settled i (Rejected e) p)) j)) [0..<n]))
               else None)"
        using inv' sub' by (rule Promise_all_own)
      also have "first_rejection (handles (PromisePool_settled i (Rejected e) p)) =
          Some (case first_rejection (handles p) of None \<Rightarrow> e | Some e0 \<Rightarrow> e0)"
        by (simp only: each [OF that] first_rejection_snoc)
      finally show ?thesis by simp
    qed
    have origin: "Settled i out \<in> set evs" if "(i, out) \<in> set (handles p)" for i out
    proof -
      from that run have "(i, out) \<in> set (handles (pool_run (PromisePool_new c) (map Add ts @ evs)))"
        by simp
      from run_async_handles [OF po new_inv new_async [THEN conjunct1]
             new_async [THEN conjunct2] this]
      have "(i, out) \<in> set (handles (PromisePool_new c)) \<or>
            Settled i out \<in> set (map Add ts @ evs)" .
      then show ?thesis by (auto simp: PromisePool_new_def)
    qed
    from each have b: "\<forall>i out. i \<in> set (active p) \<longrightarrow>
        handles (PromisePool_settled i out p) = handles p @ [(i, out)]"
      by (intro allI impI)
    from fails have f: "\<forall>i e. i \<in> set (active p) \<longrightarrow>
        Promise_all n (handles (PromisePool_settled i (Rejected e) p)) =
          Some (Rejected (case first_rejection (handles p) of
                            None \<Rightarrow> e | Some e0 \<Rightarrow> e0))"
      by (intro allI impI)
    from origin have g: "\<forall>i out. (i, out) \<in> set (handles p) \<longrightarrow> Settled i out \<in> set evs"
      by (intro allI impI)
    from quiet b f g show ?thesis by (intro conjI)
  qed
  have complete: "\<exists>vs. Promise_all n (handles p) = Some (Fulfilled vs)"
    if "fst ` set (handles p) = {0..<n} \<and> first_rejection (handles p) = None"
  proof -
    from that have "\<forall>i < n. fulfilled_value (handles p) i \<noteq> None"
      by (simp add: fulfilled_value_present)
    with that show ?thesis by (simp add: Promise_all_own [OF inv sub])
  qed
  from fulfilled have c1: "\<forall>vs. Promise_all n (handles p) = Some (Fulfilled vs) \<longrightarrow>
            length vs = n \<and> (\<forall>i < n. map_of (handles p) i = Some (Fulfilled (vs ! i)))"
    by (intro allI impI)
  from rejected have c2: "\<forall>e. Promise_all n (handles p) = Some (Rejected e) \<longrightarrow>
            (\<exists>hs1 i hs2. handles p = hs1 @ (i, Rejected e) # hs2 \<and> first_rejection hs1 = None)"
    by (intro allI impI)
  have c2': "\<forall>e. first_rejection (handles p) = Some e \<longrightarrow>
            Promise_all n (handles p) = Some (Rejected e)"
    by (simp add: Promise_all_own [OF inv sub])
  from stable have c3: "\<forall>r later. settlements_only later \<and> Promise_all n (handles p) = Some r \<longrightarrow>
            Promise_all n (handles (pool_run p later)) = Some r"
    by (intro allI impI) (elim conjE)
  from live have c4: "1 \<le> c \<and> (\<forall>t \<in> set ts. t = ReturnsPromise) \<longrightarrow>
            (active p = [] \<longrightarrow> queue p = [] \<and> fst ` set (handles p) = {0..<n}) \<and>
            (\<forall>i out. i \<in> set (active p) \<longrightarrow>
               handles (PromisePool_settled i out p) = handles p @ [(i, out)]) \<and>
            (\<forall>i e. i \<in> set (active p) \<longrightarrow>
               Promise_all n (handles (PromisePool_settled i (Rejected e) p)) =
                 Some (Rejected (case first_rejection (handles p) of
                                   None \<Rightarrow> e | Some e0 \<Rightarrow> e0))) \<and>
            (\<forall>i out. (i, out) \<in> set (handles p) \<longrightarrow> Settled i out \<in> set evs)"
    by (intro impI)
  from complete have c5: "fst ` set (handles p) = {0..<n} \<and> first_rejection (handles p) = None \<longrightarrow>
            (\<exists>vs. Promise_all n (handles p) = Some (Fulfilled vs))"
    by (intro impI)
  from c1 c2 c2' c3 c4 c5 show ?thesis by (intro conjI)
qed

theorem executeAll_outcome_witness:
  "settlements_only [Settled 0 (Fulfilled 10), Settled 2 (Rejected 3), Settled 1 (Fulfilled 11),
                     Settled 3 (Fulfilled 13), Settled 4 (Fulfilled 14) :: (nat, nat) pool_event] \<and>
   (1::int) \<le> 2 \<and>
   list_all (\<lambda>t. t = ReturnsPromise)
     [ReturnsPromise, ReturnsPromise, ReturnsPromise, ReturnsPromise, ReturnsPromise :: nat task] \<and>
   active (pool_run
     (PromisePool_execute [ReturnsPromise, ReturnsPromise, ReturnsPromise, ReturnsPromise,
                           ReturnsPromise] 2)
     [Settled 0 (Fulfilled 10), Settled 2 (Rejected 3), Settled 1 (Fulfilled 11),
      Settled 3 (Fulfilled 13), Settled 4 (Fulfilled 14) :: (nat, nat) pool_event]) = [] \<and>
   handles (pool_run
     (PromisePool_execute [ReturnsPromise, ReturnsPromise, ReturnsPromise, ReturnsPromise,
                           ReturnsPromise] 2)
     [Settled 0 (Fulfilled 10), Settled 2 (Rejected 3), Settled 1 (Fulfilled 11),
      Settled 3 (Fulfilled 13), Settled 4 (Fulfilled 14) :: (nat, nat) pool_event]) =
     [(0, Fulfilled 10), (2, Rejected 3), (1, Fulfilled 11), (3, Fulfilled 13), (4, Fulfilled 14)] \<and>
   Promise_all 5 (handles (pool_run
     (PromisePool_execute [ReturnsPromise, ReturnsPromise, ReturnsPromise, ReturnsPromise,
                           ReturnsPromise] 2)
     [Settled 0 (Fulfilled 10), Settled 2 (Rejected 3), Settled 1 (Fulfilled 11),
      Settled 3 (Fulfilled 13), Settled 4 (Fulfilled 14) :: (nat, nat) pool_event])) =
     Some (Rejected 3) \<and>
   Promise_all 2 (handles (pool_run (PromisePool_execute [ReturnsPromise, ReturnsPromise] 2)
     [Settled 1 (Fulfilled 21), Settled 0 (Fulfilled 20) :: (nat, nat) pool_event])) =
     Some (Fulfilled [20, 21]) \<and>
   (\<exists>hs1 i hs2. handles (pool_run
     (PromisePool_execute [ReturnsPromise, ReturnsPromise, ReturnsPromise, ReturnsPromise,
                           ReturnsPromise] 2)
     [Settled 0 (Fulfilled 10), Settled 2 (Rejected 3), Settled 1 (Fulfilled 11),
      Settled 3 (Fulfilled 13), Settled 4 (Fulfilled 14) :: (nat, nat) pool_event]) =
       hs1 @ (i, Rejected 3) # hs2 \<and> first_rejection hs1 = None)"
proof -
  let ?ts = "[ReturnsPromise, ReturnsPromise, ReturnsPromise, ReturnsPromise,
              ReturnsPromise :: nat task]"
  let ?evs = "[Settled 0 (Fulfilled 10), Settled 2 (Rejected 3), Settled 1 (Fulfilled 11),
               Settled 3 (Fulfilled 13), Settled 4 (Fulfilled 14) :: (nat, nat) pool_event]"
  have pre: "settlements_only ?evs" and len: "5 = length ?ts"
    by (simp_all add: settlements_only_def)
  have run: "active (pool_run (PromisePool_execute ?ts 2) ?evs) = [] \<and>
      handles (pool_run (PromisePool_execute ?ts 2) ?evs) =
        [(0, Fulfilled 10), (2, Rejected 3), (1, Fulfilled 11), (3, Fulfilled 13),
         (4, Fulfilled 14)] \<and>
      Promise_all 5 (handles (pool_run (PromisePool_execute ?ts 2) ?evs)) = Some (Rejected 3) \<and>
      Promise_all 2 (handles (pool_run (PromisePool_execute [ReturnsPromise, ReturnsPromise] 2)
        [Settled 1 (Fulfilled 21), Settled 0 (Fulfilled 20) :: (nat, nat) pool_event])) =
        Some (Fulfilled [20, 21])"
    by code_simp
  have side: "(1::int) \<le> 2 \<and> list_all (\<lambda>t. t = ReturnsPromise) ?ts" by simp
  from run have rej: "Promise_all 5 (handles (pool_run (PromisePool_execute ?ts 2) ?evs)) =
      Some (Rejected 3)"
    by (elim conjE)
  have "\<forall>e. Promise_all 5 (handles (pool_run (PromisePool_execute ?ts 2) ?evs)) =
            Some (Rejected e) \<longrightarrow>
          (\<exists>hs1 i hs2. handles (pool_run (PromisePool_execute ?ts 2) ?evs) =
             hs1 @ (i, Rejected e) # hs2 \<and> first_rejection hs1 = None)"
    by (rule executeAll_outcome [OF refl pre len, of 2, THEN conjunct2, THEN conjunct1])
  with rej
  have split: "\<exists>hs1 i hs2. handles (pool_run (PromisePool_execute ?ts 2) ?evs) =
          hs1 @ (i, Rejected 3) # hs2 \<and> first_rejection hs1 = None"
    by (elim allE [where x = 3] impE)
  from pre side run split show ?thesis by (intro conjI) (elim conjE, assumption)+
qed

text \<open>
  C3 as stated fails: with five tasks and a ceiling of 2, when the first task has
  fulfilled and the third has failed, the result is already rejected with the third
  task's error while the handles of the second, fourth and fifth task have not settled
  (two of these tasks are running and one is still waiting).
\<close>

theorem executeAll_outcome_counterexample:
  "Promise_all 5 (handles (pool_run
     (PromisePool_execute [ReturnsPromise, ReturnsPromise, ReturnsPromise, ReturnsPromise,
                           ReturnsPromise] 2)
     [Settled 0 (Fulfilled 10), Settled 2 (Rejected 3) :: (nat, nat) pool_event])) =
     Some (Rejected 3) \<and>
   map fst (handles (pool_run
     (PromisePool_execute [ReturnsPromise, ReturnsPromise, ReturnsPromise, ReturnsPromise,
                           ReturnsPromise] 2)
     [Settled 0 (Fulfilled 10), Settled 2 (Rejected 3) :: (nat, nat) pool_event])) = [0, 2] \<and>
   active (pool_run
     (PromisePool_execute [ReturnsPromise, ReturnsPromise, ReturnsPromise, ReturnsPromise,
                           ReturnsPromise] 2)
     [Settled 0 (Fulfilled 10), Settled 2 (Rejected 3) :: (nat, nat) pool_event]) = [1, 3] \<and>
   map fst (queue (pool_run
     (PromisePool_execute [ReturnsPromise, ReturnsPromise, ReturnsPromise, ReturnsPromise,
                           ReturnsPromise] 2)
     [Settled 0 (Fulfilled 10), Settled 2 (Rejected 3) :: (nat, nat) pool_event])) = [4]"
  by code_simp

end
